theory Spec2Isabelle
  imports Complex_Main
begin

section \<open>Python strings\<close>

text \<open>
  A Python \<open>str\<close> is a sequence of code points. The development represents it as a
  \<^typ>\<open>string\<close> and reads every \<^typ>\<open>char\<close> as the code point of the same number
  (U+0000 to U+00FF), so the playlist texts covered are the ones written in that range.
\<close>

definition isspace :: "char \<Rightarrow> bool" where
  \<comment> \<open>\<open>str.isspace\<close> on one code point below U+0100; \<open>str.strip()\<close> and the regular
      expression class \<open>\s\<close> use the same table.\<close>
  "isspace c \<longleftrightarrow> c \<in> set [CHR 0x09, CHR 0x0A, CHR 0x0B, CHR 0x0C, CHR 0x0D,
     CHR 0x1C, CHR 0x1D, CHR 0x1E, CHR 0x1F, CHR 0x20, CHR 0x85, CHR 0xA0]"

definition strip :: "string \<Rightarrow> string" where
  \<comment> \<open>\<open>s.strip()\<close>: leading and trailing whitespace removed.\<close>
  "strip s = rev (dropWhile isspace (rev (dropWhile isspace s)))"

definition startswith :: "string \<Rightarrow> string \<Rightarrow> bool" where
  \<comment> \<open>\<open>s.startswith(p)\<close>\<close>
  "startswith s p \<longleftrightarrow> take (length p) s = p"

fun split :: "char \<Rightarrow> string \<Rightarrow> string list" where
  \<comment> \<open>\<open>s.split(sep)\<close> for a separator of one character: never an empty list.\<close>
  "split sep [] = [[]]"
| "split sep (c # cs) =
     (if c = sep then [] # split sep cs
      else (case split sep cs of [] \<Rightarrow> [[c]] | l # ls \<Rightarrow> (c # l) # ls))"

fun join :: "string \<Rightarrow> string list \<Rightarrow> string" where
  \<comment> \<open>\<open>sep.join(xs)\<close>\<close>
  "join sep [] = []"
| "join sep [x] = x"
| "join sep (x # y # ys) = x @ sep @ join sep (y # ys)"

section \<open>The playlist parser\<close>

record channel =
  tvg_id :: "string option"
  metadata_lines :: "string list"
  stream_url :: string
  full_entry :: string

definition dquote :: char where
  "dquote = CHR 0x22"

fun search_tvg_id :: "string \<Rightarrow> string option" where
  \<comment> \<open>\<open>re.search(r'tvg-id="([^"]+)"', s)\<close> and group 1 of the leftmost match: at the
      first position where \<open>tvg-id="\<close> stands before a non-empty run of characters
      other than the double quote that a double quote closes.\<close>
  "search_tvg_id [] = None"
| "search_tvg_id (c # cs) =
     (if startswith (c # cs) (''tvg-id='' @ [dquote])
         \<and> takeWhile (\<lambda>x. x \<noteq> dquote) (drop 8 (c # cs)) \<noteq> []
         \<and> dropWhile (\<lambda>x. x \<noteq> dquote) (drop 8 (c # cs)) \<noteq> []
      then Some (takeWhile (\<lambda>x. x \<noteq> dquote) (drop 8 (c # cs)))
      else search_tvg_id cs)"

definition make_channel :: "string list \<Rightarrow> string \<Rightarrow> channel" where
  \<comment> \<open>The dictionary appended at lines 76 to 84. \<open>metadata_lines[0]\<close> is read with
      \<^const>\<open>hd\<close>: the list starts with the primary line wherever the parser builds it
      (\<open>collect_metadata_hd\<close> below).\<close>
  "make_channel ms url =
     \<lparr> tvg_id = search_tvg_id (hd ms),
       metadata_lines = ms,
       stream_url = url,
       full_entry = join [CHR 0x0A] ms @ [CHR 0x0A] @ url \<rparr>"

definition is_extinf :: "string \<Rightarrow> bool" where
  "is_extinf l \<longleftrightarrow> startswith (strip l) ''#EXTINF:''"

definition is_aux :: "string \<Rightarrow> bool" where
  \<comment> \<open>The test of the loop at line 64.\<close>
  "is_aux l \<longleftrightarrow> startswith (strip l) ''#'' \<and> \<not> startswith (strip l) ''#EXTINF:''"

definition is_blank :: "string \<Rightarrow> bool" where
  \<comment> \<open>\<open>not lines[i].strip()\<close>\<close>
  "is_blank l \<longleftrightarrow> strip l = []"

function collect_metadata :: "string list \<Rightarrow> nat \<Rightarrow> string list \<Rightarrow> nat \<times> string list" where
  \<comment> \<open>The loop of lines 64 to 66, from index \<open>i\<close> with the lines collected so far.\<close>
  "collect_metadata lines i ms =
     (if i < length lines \<and> is_aux (lines ! i)
      then collect_metadata lines (i + 1) (ms @ [strip (lines ! i)])
      else (i, ms))"
  by pat_completeness auto
termination
  by (relation "measure (\<lambda>(lines, i, ms). length lines - i)") auto

declare collect_metadata.simps [simp del]

function skip_blank :: "string list \<Rightarrow> nat \<Rightarrow> nat" where
  \<comment> \<open>The loop of lines 69 and 70.\<close>
  "skip_blank lines i =
     (if i < length lines \<and> is_blank (lines ! i) then skip_blank lines (i + 1) else i)"
  by pat_completeness auto
termination
  by (relation "measure (\<lambda>(lines, i). length lines - i)") auto

declare skip_blank.simps [simp del]

lemma collect_metadata_ge: "i \<le> fst (collect_metadata lines i ms)"
proof (induction lines i ms rule: collect_metadata.induct)
  case (1 lines i ms)
  show ?case
  proof (cases "i < length lines \<and> is_aux (lines ! i)")
    case True
    with "1" have "i + 1 \<le> fst (collect_metadata lines (i + 1) (ms @ [strip (lines ! i)]))"
      by simp
    with True show ?thesis
      by (subst collect_metadata.simps) simp
  next
    case False
    then show ?thesis
      by (subst collect_metadata.simps) auto
  qed
qed

lemma skip_blank_ge: "i \<le> skip_blank lines i"
proof (induction lines i rule: skip_blank.induct)
  case (1 lines i)
  show ?case
  proof (cases "i < length lines \<and> is_blank (lines ! i)")
    case True
    with "1" have "i + 1 \<le> skip_blank lines (i + 1)"
      by simp
    with True show ?thesis
      by (subst skip_blank.simps) simp
  next
    case False
    then show ?thesis
      by (subst skip_blank.simps) auto
  qed
qed

function parse_loop :: "string list \<Rightarrow> nat \<Rightarrow> channel list \<Rightarrow> channel list" where
  \<comment> \<open>The loop of lines 54 to 86, from index \<open>i\<close> with the channels appended so far.\<close>
  "parse_loop lines i channels =
     (if i < length lines then
        (if is_extinf (lines ! i) then
           (case collect_metadata lines (i + 1) [strip (lines ! i)] of
              (j, ms) \<Rightarrow>
                (if skip_blank lines j < length lines
                 then parse_loop lines (skip_blank lines j + 1)
                        (channels @ [make_channel ms (strip (lines ! skip_blank lines j))])
                 else parse_loop lines (skip_blank lines j + 1) channels))
         else parse_loop lines (i + 1) channels)
      else channels)"
  by pat_completeness auto
termination parse_loop
proof (relation "measure (\<lambda>(lines, i, channels). length lines - i)")
  show "wf (measure (\<lambda>(lines, i, channels). length lines - i))"
    by simp
next
  fix lines :: "string list" and i j :: nat and channels :: "channel list" and ms
  assume i: "i < length lines"
    and x: "(j, ms) = collect_metadata lines (i + 1) [strip (lines ! i)]"
    and k: "skip_blank lines j < length lines"
  have "i + 1 \<le> j"
    using collect_metadata_ge [of "i + 1" lines "[strip (lines ! i)]"] x
    by (metis fst_conv)
  then have "i + 1 \<le> skip_blank lines j"
    using skip_blank_ge [of j lines] by linarith
  with k show "((lines, skip_blank lines j + 1,
      channels @ [make_channel ms (strip (lines ! skip_blank lines j))]),
      lines, i, channels) \<in> measure (\<lambda>(lines, i, channels). length lines - i)"
    by simp
next
  fix lines :: "string list" and i j :: nat and channels :: "channel list"
    and ms :: "string list"
  assume i: "i < length lines"
    and x: "(j, ms) = collect_metadata lines (i + 1) [strip (lines ! i)]"
  have "i + 1 \<le> j"
    using collect_metadata_ge [of "i + 1" lines "[strip (lines ! i)]"] x
    by (metis fst_conv)
  then have "i + 1 \<le> skip_blank lines j"
    using skip_blank_ge [of j lines] by linarith
  with i show "((lines, skip_blank lines j + 1, channels), lines, i, channels)
      \<in> measure (\<lambda>(lines, i, channels). length lines - i)"
    by simp
next
  fix lines :: "string list" and i :: nat and channels :: "channel list"
  assume "i < length lines"
  then show "((lines, i + 1, channels), lines, i, channels)
      \<in> measure (\<lambda>(lines, i, channels). length lines - i)"
    by simp
qed

declare parse_loop.simps [simp del]

definition parse_m3u :: "string \<Rightarrow> channel list" where
  "parse_m3u m3u_content = parse_loop (split (CHR 0x0A) m3u_content) 0 []"

function parse_lines :: "string list \<Rightarrow> channel list" where
  \<comment> \<open>The loop once more, by recursion on the lines that are left instead of an index:
      a device of the proofs, equal to \<open>parse_loop\<close> by \<open>parse_loop_eq\<close>.\<close>
  "parse_lines [] = []"
| "parse_lines (l # ls) =
     (if is_extinf l then
        (case dropWhile is_blank (dropWhile is_aux ls) of
           [] \<Rightarrow> []
         | u # rest \<Rightarrow>
             make_channel (strip l # map strip (takeWhile is_aux ls)) (strip u) # parse_lines rest)
      else parse_lines ls)"
  by pat_completeness auto
termination
proof (relation "measure length")
  show "wf (measure length)" by simp
next
  fix l :: string and ls :: "string list" and u rest
  assume "dropWhile is_blank (dropWhile is_aux ls) = u # rest"
  then have "length (u # rest) \<le> length ls"
    by (metis length_dropWhile_le order_trans)
  then show "(rest, l # ls) \<in> measure length" by simp
next
  fix l :: string and ls :: "string list"
  show "(ls, l # ls) \<in> measure length" by simp
qed

text \<open>Words for the statements about the parser.\<close>

definition is_directive :: "string \<Rightarrow> bool" where
  \<comment> \<open>A line that begins with the marker \<open>#\<close> once trimmed.\<close>
  "is_directive l \<longleftrightarrow> startswith (strip l) ''#''"

datatype block =
    Other string  \<comment> \<open>a line outside an entry\<close>
  | Entry string "string list" "string list" string
      \<comment> \<open>the primary line, the auxiliary lines, the blank lines, the URL line\<close>

fun render :: "block \<Rightarrow> string list" where
  "render (Other l) = [l]"
| "render (Entry p aux blanks u) = p # aux @ blanks @ [u]"

fun valid_block :: "block \<Rightarrow> bool" where
  "valid_block (Other l) = (\<not> is_extinf l)"
| "valid_block (Entry p aux blanks u) =
     (is_extinf p \<and> list_all is_aux aux \<and> list_all is_blank blanks
      \<and> \<not> is_blank u \<and> \<not> is_directive u)"

fun records_of :: "block \<Rightarrow> channel list" where
  "records_of (Other l) = []"
| "records_of (Entry p aux blanks u) = [make_channel (map strip (p # aux)) (strip u)]"

fun is_entry :: "block \<Rightarrow> bool" where
  "is_entry (Other l) = False"
| "is_entry (Entry p aux blanks u) = True"

fun truncated :: "string list \<Rightarrow> bool" where
  \<comment> \<open>Nothing, or a primary line with only auxiliary lines and then blank lines after it.\<close>
  "truncated [] = True"
| "truncated (p # rest) = (is_extinf p \<and> list_all is_blank (dropWhile is_aux rest))"

section \<open>Element trees and the path language of \<open>xml.etree\<close>\<close>

text \<open>
  The catalog is read with Python's \<open>xml.etree.ElementTree\<close>, which is not part of the
  repository. An element is a tag, its attributes, its text and tail, and its children.
  \<open>Element.findall\<close> hands every path that holds one of \<open>/ * [ @ .\<close> to the module
  \<open>ElementPath\<close>; the definitions below follow that module as it stands since Python
  3.10: the tokenizer (one regular expression, tried at every position), the compilation of
  the tokens into selectors, and the selectors applied in turn to the list of elements.
  An exception of any kind is the result \<open>None\<close>: the caller treats them all alike.
\<close>

datatype element =
  Element (tag: string) (attrib: "(string \<times> string) list")
    (elem_text: "string option") (tail: "string option") (children: "element list")

definition get :: "element \<Rightarrow> string \<Rightarrow> string option" where
  \<comment> \<open>\<open>elem.get(key)\<close>\<close>
  "get e key = map_of (attrib e) key"

definition append :: "element \<Rightarrow> element \<Rightarrow> element" where
  \<comment> \<open>\<open>parent.append(child)\<close>, returning the parent as it is afterwards.\<close>
  "append parent child =
     Element (tag parent) (attrib parent) (elem_text parent) (tail parent)
       (children parent @ [child])"

fun descendants :: "element \<Rightarrow> element list" where
  \<comment> \<open>\<open>elem.iter()\<close> without \<open>elem\<close> itself: document order.\<close>
  "descendants (Element t a x y cs) = concat (map (\<lambda>c. c # descendants c) cs)"

type_synonym token = "string \<times> string"

definition squote :: char where
  "squote = CHR 0x27"

definition name_char :: "char \<Rightarrow> bool" where
  \<comment> \<open>The class \<open>[^/\[\]\(\)@!=\s]\<close>.\<close>
  "name_char c \<longleftrightarrow> c \<notin> set ''/[]()@!='' \<and> \<not> isspace c"

definition brace_len :: "string \<Rightarrow> nat" where
  \<comment> \<open>The length of the match of \<open>\{[^}]+\}\<close> at the head of the text, 0 when there is
      none: a brace, a non-empty run without \<open>}\<close>, and the \<open>}\<close> that closes it.\<close>
  "brace_len s =
     (case s of
        [] \<Rightarrow> 0
      | c # r \<Rightarrow>
          (if c = CHR ''{''
              \<and> takeWhile (\<lambda>x. x \<noteq> CHR ''}'') r \<noteq> []
              \<and> dropWhile (\<lambda>x. x \<noteq> CHR ''}'') r \<noteq> []
           then length (takeWhile (\<lambda>x. x \<noteq> CHR ''}'') r) + 2
           else 0))"

definition name_len :: "string \<Rightarrow> nat" where
  \<comment> \<open>The length of the match of \<open>(?:\{[^}]+\})?[^/\[\]\(\)@!=\s]+\<close> at the head of
      the text, 0 when there is none. The braces are matched when a name character follows
      them; otherwise the expression falls back to the plain run of name characters.\<close>
  "name_len s =
     (if 0 < brace_len s \<and> takeWhile name_char (drop (brace_len s) s) \<noteq> []
      then brace_len s + length (takeWhile name_char (drop (brace_len s) s))
      else length (takeWhile name_char s))"

definition scan :: "string \<Rightarrow> token option \<times> nat" where
  \<comment> \<open>One step of \<open>xpath_tokenizer_re.findall\<close> on a non-empty text: the token matched
      at its head (the two groups of the expression) and the number of characters
      consumed. The alternatives are tried in the order of the expression; where none
      matches, the search moves on by one character.\<close>
  "scan s =
     (case s of
        [] \<Rightarrow> (None, 0)
      | c # cs \<Rightarrow>
          (if (c = squote \<or> c = dquote) \<and> c \<in> set cs then
             (Some (take (length (takeWhile (\<lambda>x. x \<noteq> c) cs) + 2) s, []),
              length (takeWhile (\<lambda>x. x \<noteq> c) cs) + 2)
           else if startswith s ''::'' then (Some (''::'', []), 2)
           else if startswith s ''//'' then (Some (''//'', []), 2)
           else if c = CHR ''/'' then (Some (''/'', []), 1)
           else if startswith s ''..'' then (Some (''..'', []), 2)
           else if startswith s ''()'' then (Some (''()'', []), 2)
           else if startswith s ''!='' then (Some (''!='', []), 2)
           else if c \<in> set ''/.*:[]()@='' then (Some ([c], []), 1)
           else if 0 < name_len s then (Some ([], take (name_len s) s), name_len s)
           else if isspace c then (Some ([], []), length (takeWhile isspace s))
           else (None, 1)))"

fun xpath_tokens :: "string \<Rightarrow> token list" where
  \<comment> \<open>\<open>xpath_tokenizer_re.findall(pattern)\<close>\<close>
  "xpath_tokens [] = []"
| "xpath_tokens (c # cs) =
     (case fst (scan (c # cs)) of None \<Rightarrow> [] | Some t \<Rightarrow> [t])
       @ xpath_tokens (drop (snd (scan (c # cs)) - 1) cs)"

declare xpath_tokens.simps [simp del]

definition bad_name :: "token \<Rightarrow> bool" where
  \<comment> \<open>\<open>xpath_tokenizer\<close> without a namespace map raises \<open>SyntaxError\<close> at a name that
      holds a colon and does not start with a brace.\<close>
  "bad_name t \<longleftrightarrow> snd t \<noteq> [] \<and> hd (snd t) \<noteq> CHR ''{'' \<and> CHR '':'' \<in> set (snd t)"

datatype selector =
    SelectSelf
  | SelectChild string
  | SelectStar
  | SelectDescendant string
  | SelectHasAttr string
  | SelectAttrEq string string
  | SelectAttrNe string string
  | SelectParent
  | SelectWildcardChild string
  | SelectWildcardDescendant string
  | SelectOtherPredicate string "string list"

text \<open>
  The first seven selectors are defined here. The others (\<open>..\<close>, the tags with a namespace
  wildcard, and the predicates on child tags, on text and on positions) are the library's
  as well, but no lookup of the program's own needs them: they are taken as a parameter
  \<open>ext\<close>, which gives the elements such a selector yields from a list of elements under a
  root, or \<open>None\<close> where it raises. Every statement below holds for every \<open>ext\<close>.
\<close>

type_synonym ext = "selector \<Rightarrow> element \<Rightarrow> element list \<Rightarrow> element list option"

definition is_wildcard_tag :: "string \<Rightarrow> bool" where
  \<comment> \<open>\<open>tag[:3] == '{*}' or tag[-2:] == '}*'\<close>\<close>
  "is_wildcard_tag t \<longleftrightarrow> take 3 t = ''{*}'' \<or> (2 \<le> length t \<and> drop (length t - 2) t = ''}*'')"

definition plain_tag :: "string \<Rightarrow> string" where
  \<comment> \<open>\<open>'{}tag'\<close> is \<open>'tag'\<close>\<close>
  "plain_tag t = (if take 2 t = ''{}'' then drop 2 t else t)"

definition norm_token :: "token \<Rightarrow> token" where
  \<comment> \<open>In a predicate a quoted string counts as the token \<open>'\<close> with its content.\<close>
  "norm_token t =
     (if fst t \<noteq> [] \<and> (hd (fst t) = squote \<or> hd (fst t) = dquote)
      then ([squote], butlast (tl (fst t))) else t)"

definition sig_item :: "token \<Rightarrow> string" where
  \<comment> \<open>\<open>token[0] or "-"\<close>\<close>
  "sig_item t = (if fst t = [] then ''-'' else fst t)"

definition other_signatures :: "string list" where
  "other_signatures =
     [''-'', ''.='' @ [squote], ''.!='' @ [squote], ''-='' @ [squote], ''-!='' @ [squote],
      ''-()'', ''-()-'']"

definition prepare_predicate :: "token list \<Rightarrow> (selector \<times> nat) option" where
  \<comment> \<open>The tokens up to the closing bracket, without whitespace, give the signature and
      the predicate; the result is the selector and the number of tokens consumed. With no
      closing bracket the library appends no selector at all and the call of it raises.\<close>
  "prepare_predicate toks =
     (let body = takeWhile (\<lambda>t. fst t \<noteq> '']'') toks;
          ps = map norm_token (filter (\<lambda>t. t \<noteq> ([], [])) body);
          signature = concat (map sig_item ps);
          predicate = map snd ps
      in if length body = length toks then None
         else if signature = ''@-'' then Some (SelectHasAttr (predicate ! 1), length body + 1)
         else if signature = ''@-='' @ [squote]
           then Some (SelectAttrEq (predicate ! 1) (last predicate), length body + 1)
         else if signature = ''@-!='' @ [squote]
           then Some (SelectAttrNe (predicate ! 1) (last predicate), length body + 1)
         else if signature \<in> set other_signatures
           then Some (SelectOtherPredicate signature predicate, length body + 1)
         else None)"

definition prepare_descendant :: "token list \<Rightarrow> (selector \<times> nat) option" where
  "prepare_descendant toks =
     (case toks of
        [] \<Rightarrow> None
      | t # _ \<Rightarrow>
          (if fst t = ''*'' then Some (SelectDescendant ''*'', 1)
           else if fst t = [] then
             (if is_wildcard_tag (snd t) then Some (SelectWildcardDescendant (snd t), 1)
              else Some (SelectDescendant (plain_tag (snd t)), 1))
           else None))"

definition prepare :: "token \<Rightarrow> token list \<Rightarrow> (selector \<times> nat) option" where
  \<comment> \<open>\<open>ops[token[0]](next, token)\<close>: a key that \<open>ops\<close> does not hold raises.\<close>
  "prepare t toks =
     (if fst t = [] then
        (if is_wildcard_tag (snd t) then Some (SelectWildcardChild (snd t), 0)
         else Some (SelectChild (plain_tag (snd t)), 0))
      else if fst t = ''*'' then Some (SelectStar, 0)
      else if fst t = ''.'' then Some (SelectSelf, 0)
      else if fst t = ''..'' then Some (SelectParent, 0)
      else if fst t = ''//'' then prepare_descendant toks
      else if fst t = ''['' then prepare_predicate toks
      else None)"

function compile :: "token list \<Rightarrow> selector list option" where
  \<comment> \<open>The loop of \<open>iterfind\<close> that builds the selector list: after each selector the next
      token is read, and once more when it is \<open>/\<close>; the end of the tokens ends the loop.\<close>
  "compile [] = None"
| "compile (t # toks) =
     (case prepare t toks of
        None \<Rightarrow> None
      | Some (sel, n) \<Rightarrow>
          (case drop n toks of
             [] \<Rightarrow> Some [sel]
           | u # us \<Rightarrow>
               (if fst u = ''/'' then
                  (case us of
                     [] \<Rightarrow> Some [sel]
                   | v # vs \<Rightarrow> map_option ((#) sel) (compile (v # vs)))
                else map_option ((#) sel) (compile (u # us)))))"
  by pat_completeness auto
termination
proof (relation "measure length")
  show "wf (measure length)" by simp
next
  fix t :: token and toks :: "token list" and n :: nat and u us v vs
  assume "drop n toks = u # us" "us = v # vs"
  then have "length (v # vs) < length (drop n toks)" by simp
  then show "(v # vs, t # toks) \<in> measure length" by simp
next
  fix t :: token and toks :: "token list" and n :: nat and u us
  assume "drop n toks = u # us"
  then have "length (u # us) \<le> length toks"
    by (metis diff_le_self length_drop)
  then show "(u # us, t # toks) \<in> measure length" by simp
qed

fun select :: "ext \<Rightarrow> element \<Rightarrow> selector \<Rightarrow> element list \<Rightarrow> element list option" where
  "select ext root' SelectSelf result = Some result"
| "select ext root' (SelectChild t) result =
     Some (concat (map (\<lambda>elem. filter (\<lambda>e. tag e = t) (children elem)) result))"
| "select ext root' SelectStar result = Some (concat (map children result))"
| "select ext root' (SelectDescendant t) result =
     Some (concat (map (\<lambda>elem. filter (\<lambda>e. t = ''*'' \<or> tag e = t) (descendants elem)) result))"
| "select ext root' (SelectHasAttr key) result = Some (filter (\<lambda>elem. get elem key \<noteq> None) result)"
| "select ext root' (SelectAttrEq key v) result = Some (filter (\<lambda>elem. get elem key = Some v) result)"
| "select ext root' (SelectAttrNe key v) result =
     Some (filter (\<lambda>elem. get elem key \<noteq> None \<and> get elem key \<noteq> Some v) result)"
| "select ext root' sel result = ext sel root' result"

fun run_selectors :: "ext \<Rightarrow> element \<Rightarrow> selector list \<Rightarrow> element list \<Rightarrow> element list option" where
  \<comment> \<open>\<open>for select in selector: result = select(context, result)\<close>\<close>
  "run_selectors ext root' [] result = Some result"
| "run_selectors ext root' (sel # sels) result =
     (case select ext root' sel result of
        None \<Rightarrow> None
      | Some r \<Rightarrow> run_selectors ext root' sels r)"

definition findall :: "ext \<Rightarrow> element \<Rightarrow> string \<Rightarrow> element list option" where
  \<comment> \<open>\<open>elem.findall(path)\<close> for a path that goes to \<open>ElementPath\<close>.\<close>
  "findall ext elem path =
     (let p = (if path \<noteq> [] \<and> last path = CHR ''/'' then path @ ''*'' else path);
          toks = xpath_tokens p
      in if take 1 p = ''/'' then None
         else if list_ex bad_name toks then None
         else (case compile toks of
                 None \<Rightarrow> None
               | Some sels \<Rightarrow> run_selectors ext elem sels [elem]))"

section \<open>The catalog scanner\<close>

datatype site_file = Unreadable | Document element

definition xpath_query :: "string \<Rightarrow> string" where
  \<comment> \<open>\<open>".//channel[@xmltv_id='{}']".format(tvg_id)\<close>\<close>
  "xpath_query tvg_id' = ''.//channel[@xmltv_id='' @ [squote] @ tvg_id' @ [squote] @ '']''"

fun find_channel_in_sites :: "ext \<Rightarrow> string \<Rightarrow> site_file list \<Rightarrow> element option" where
  \<comment> \<open>\<open>sites_dir\<close> is the list of the files \<open>*/*.channels.xml\<close> that the glob of line 95
      yields, in its order: \<^const>\<open>Unreadable\<close> where \<open>ET.parse\<close> raises, the root
      element otherwise. The glob is outside the \<open>try\<close>: an error of the directory scan
      itself leaves the function, and such a scan has no list here.\<close>
  "find_channel_in_sites ext tvg_id' [] = None"
| "find_channel_in_sites ext tvg_id' (Unreadable # sites_dir) =
     find_channel_in_sites ext tvg_id' sites_dir"
| "find_channel_in_sites ext tvg_id' (Document root' # sites_dir) =
     (case findall ext root' (xpath_query tvg_id') of
        None \<Rightarrow> find_channel_in_sites ext tvg_id' sites_dir
      | Some [] \<Rightarrow> find_channel_in_sites ext tvg_id' sites_dir
      | Some (channel # _) \<Rightarrow> Some channel)"

definition tail_ok :: "string \<Rightarrow> token option \<times> nat \<Rightarrow> bool" where
  \<comment> \<open>For the proofs about the query: what one step of the tokenizer does on a text
      \<open>y\<close> followed by a quote and a closing bracket, when \<open>y\<close> holds no closing bracket. It
      consumes at most \<open>y\<close> and the quote, its token is not the bracket, and when it
      consumes the quote too its token is not whitespace.\<close>
  "tail_ok y r \<longleftrightarrow>
     1 \<le> snd r \<and> snd r \<le> length y + 1
     \<and> (\<forall>t. fst r = Some t \<longrightarrow> fst t \<noteq> '']'')
     \<and> (snd r = length y + 1 \<longrightarrow> (\<exists>t. fst r = Some t \<and> t \<noteq> ([], [])))"

section \<open>The match cache and the age of the guide\<close>

text \<open>
  \<open>time.time()\<close> and a file's \<open>st_mtime\<close> are seconds as floating-point numbers; they are
  taken as real numbers here. The cache file is represented by what \<open>json.load\<close> makes of
  it. \<open>json.load\<close> reads the literals \<open>NaN\<close>, \<open>Infinity\<close> and \<open>-Infinity\<close> as floats, so the
  value under the key \<open>timestamp\<close> is a number or one of these three; Python's subtraction
  and comparison on them are \<open>cache_age\<close> and \<open>exceeds\<close>.
\<close>

definition CACHE_MAX_AGE :: real where
  "CACHE_MAX_AGE = 24 * 60 * 60"

definition GUIDE_CACHE_MAX_AGE :: real where
  "GUIDE_CACHE_MAX_AGE = 12 * 60 * 60"

datatype pyfloat =
    Number real
  | NaN
  | Infinity
  | MinusInfinity

fun cache_age :: "real \<Rightarrow> pyfloat \<Rightarrow> pyfloat" where
  \<comment> \<open>\<open>time.time() - cache_data['timestamp']\<close>\<close>
  "cache_age now (Number t) = Number (now - t)"
| "cache_age now NaN = NaN"
| "cache_age now Infinity = MinusInfinity"
| "cache_age now MinusInfinity = Infinity"

fun exceeds :: "pyfloat \<Rightarrow> real \<Rightarrow> bool" where
  \<comment> \<open>\<open>x > m\<close> for a float \<open>x\<close> and a number \<open>m\<close>: false whenever \<open>x\<close> is \<open>NaN\<close>.\<close>
  "exceeds (Number x) m = (x > m)"
| "exceeds NaN m = False"
| "exceeds Infinity m = True"
| "exceeds MinusInfinity m = False"


text \<open>
  The XML text under the key \<open>channels_xml\<close> is represented by what \<open>ET.fromstring\<close>
  makes of it: \<open>XmlOf r\<close> is a text that parses to the tree \<open>r\<close>, \<open>NotXml\<close> a text on which
  the parser raises. \<open>ET.tostring\<close> and the parser are not inverse to each other: a
  carriage return in a text is read back as a line feed, an empty text as no text, a control
  character is written as it is and then refused by the parser; and \<open>ET.tostring\<close> itself
  raises on some trees (a tag that opens a brace without closing it, a tree deeper than the
  interpreter's recursion limit). What the two do is fixed here for the trees \<open>simple\<close>
  alone, which \<open>ET.tostring\<close> writes as a text that parses back to the same tree: names of
  ASCII letters, digits and \<open>_ - .\<close> that do not begin with \<open>xml\<close>, every attribute key
  once, texts and tails that are not empty, no character below U+0020 but tab and line
  feed, no tail on the root, and at most 100 levels. For every other tree the text that
  \<open>ET.tostring\<close> writes, or that it raises (\<open>None\<close>), is a parameter of the model.
\<close>

datatype xml_text = XmlOf element | NotXml

type_synonym xml_lib = "element \<Rightarrow> xml_text option"

definition name_start :: "char \<Rightarrow> bool" where
  "name_start c \<longleftrightarrow>
     c \<in> set ''abcdefghijklmnopqrstuvwxyzABCDEFGHIJKLMNOPQRSTUVWXYZ_''"

definition name_part :: "char \<Rightarrow> bool" where
  "name_part c \<longleftrightarrow> name_start c \<or> c \<in> set ''0123456789-.''"

fun reserved :: "string \<Rightarrow> bool" where
  \<comment> \<open>The name begins with \<open>xml\<close> in any case of the letters.\<close>
  "reserved (a # b # c # n) \<longleftrightarrow>
     a \<in> set ''xX'' \<and> b \<in> set ''mM'' \<and> c \<in> set ''lL''"
| "reserved n \<longleftrightarrow> False"

definition xml_name :: "string \<Rightarrow> bool" where
  "xml_name n \<longleftrightarrow> n \<noteq> [] \<and> name_start (hd n) \<and> list_all name_part (tl n) \<and> \<not> reserved n"

definition xml_char :: "char \<Rightarrow> bool" where
  "xml_char c \<longleftrightarrow> c = CHR 0x09 \<or> c = CHR 0x0A \<or> 32 \<le> (of_char c :: nat)"

fun xml_chars :: "string option \<Rightarrow> bool" where
  \<comment> \<open>A text or a tail: absent, or not empty and of such characters.\<close>
  "xml_chars None = True"
| "xml_chars (Some s) = (s \<noteq> [] \<and> list_all xml_char s)"

fun plain :: "element \<Rightarrow> bool" where
  "plain (Element t a x y cs) \<longleftrightarrow>
     xml_name t \<and> distinct (map fst a)
     \<and> list_all (\<lambda>kv. xml_name (fst kv) \<and> list_all xml_char (snd kv)) a
     \<and> xml_chars x \<and> xml_chars y \<and> list_all plain cs"

fun depth :: "element \<Rightarrow> nat" where
  "depth (Element t a x y cs) = Suc (fold max (map depth cs) 0)"

definition simple :: "element \<Rightarrow> bool" where
  "simple e \<longleftrightarrow> plain e \<and> tail e = None \<and> depth e \<le> 100"

definition tostring :: "xml_lib \<Rightarrow> element \<Rightarrow> xml_text option" where
  \<comment> \<open>\<open>ET.tostring(e, encoding='unicode')\<close>; \<open>None\<close> where it raises.\<close>
  "tostring lib e = (if simple e then Some (XmlOf e) else lib e)"

fun fromstring :: "xml_text \<Rightarrow> element option" where
  \<comment> \<open>\<open>None\<close> where \<open>ET.fromstring\<close> raises \<open>ParseError\<close>.\<close>
  "fromstring (XmlOf r) = Some r"
| "fromstring NotXml = None"

record cache_data =
  timestamp :: pyfloat
  stored_channels :: "channel list"  \<comment> \<open>the key \<open>matched_channels\<close>\<close>
  channels_xml :: xml_text

datatype cache_content =
    NoFile  \<comment> \<open>\<open>cache_path.exists()\<close> is false\<close>
  | Unloadable  \<comment> \<open>\<open>open\<close>, \<open>json.load\<close>, the lookup of a key or the subtraction at
      line 139 (a timestamp that is no number, or an integer beyond the floats) raises\<close>
  | Stored cache_data

record match_result =
  matched_channels :: "channel list"
  channels_root :: element

record run_files =
  cache_file :: cache_content  \<comment> \<open>\<open>./epg-workspace/channel-cache.json\<close>\<close>
  channels_file :: "element option"  \<comment> \<open>\<open>epg/channels.xml\<close>: the tree written\<close>
  playlist_file :: "string option"  \<comment> \<open>\<open>./playlist-filtered.m3u\<close>\<close>
  guide_file :: "real option"  \<comment> \<open>\<open>./guide.xml\<close>: its modification time\<close>

definition save_channel_cache ::
    "xml_lib \<Rightarrow> real \<Rightarrow> channel list \<Rightarrow> element \<Rightarrow> run_files \<Rightarrow> run_files option" where
  \<comment> \<open>The second argument is what \<open>time.time()\<close> returns at line 114. \<open>None\<close> where
      \<open>ET.tostring\<close> raises at line 116: no file is written then.\<close>
  "save_channel_cache lib now ms rt fs =
     (case tostring lib rt of
        None \<Rightarrow> None
      | Some xml \<Rightarrow>
          Some (fs\<lparr>cache_file :=
                  Stored \<lparr>timestamp = Number now, stored_channels = ms, channels_xml = xml\<rparr>\<rparr>))"

fun load_channel_cache :: "real \<Rightarrow> cache_content \<Rightarrow> match_result option" where
  \<comment> \<open>The first argument is what \<open>time.time()\<close> returns at line 139.\<close>
  "load_channel_cache now NoFile = None"
| "load_channel_cache now Unloadable = None"
| "load_channel_cache now (Stored cache_data) =
     (if exceeds (cache_age now (timestamp cache_data)) CACHE_MAX_AGE then None
      else (case fromstring (channels_xml cache_data) of
              None \<Rightarrow> None
            | Some rt \<Rightarrow>
                Some \<lparr>matched_channels = stored_channels cache_data, channels_root = rt\<rparr>))"

fun is_guide_recent :: "real \<Rightarrow> real option \<Rightarrow> bool" where
  \<comment> \<open>The current time, and the modification time of \<open>./guide.xml\<close> where it exists.\<close>
  "is_guide_recent now None = False"
| "is_guide_recent now (Some st_mtime) = (\<not> now - st_mtime > GUIDE_CACHE_MAX_AGE)"

section \<open>The run\<close>

record match_state = match_result +
  matched_count :: int
  skipped_count :: int

fun match_loop :: "ext \<Rightarrow> site_file list \<Rightarrow> channel list \<Rightarrow> match_state \<Rightarrow> match_state" where
  \<comment> \<open>The loop of lines 239 to 255 over the channels that are left.\<close>
  "match_loop ext sites_dir [] st = st"
| "match_loop ext sites_dir (channel # channels) st =
     (case tvg_id channel of
        None \<Rightarrow>
          match_loop ext sites_dir channels (st\<lparr>skipped_count := skipped_count st + 1\<rparr>)
      | Some tvg_id' \<Rightarrow>
          (if tvg_id' = [] then
             match_loop ext sites_dir channels (st\<lparr>skipped_count := skipped_count st + 1\<rparr>)
           else
             (case find_channel_in_sites ext tvg_id' sites_dir of
                Some channel_element \<Rightarrow>
                  match_loop ext sites_dir channels
                    (st\<lparr>channels_root := append (channels_root st) channel_element,
                        matched_channels := matched_channels st @ [channel],
                        matched_count := matched_count st + 1\<rparr>)
              | None \<Rightarrow> match_loop ext sites_dir channels st)))"

definition match_pass :: "ext \<Rightarrow> site_file list \<Rightarrow> channel list \<Rightarrow> match_state" where
  \<comment> \<open>Lines 232 to 255.\<close>
  "match_pass ext sites_dir channels =
     match_loop ext sites_dir channels
       \<lparr>matched_channels = [], channels_root = Element ''channels'' [] None None [],
        matched_count = 0, skipped_count = 0\<rparr>"

definition removed_count :: "channel list \<Rightarrow> match_state \<Rightarrow> int" where
  \<comment> \<open>The number printed at line 259.\<close>
  "removed_count channels st = int (length channels) - matched_count st - skipped_count st"

record env =
  refresh :: bool  \<comment> \<open>\<open>--refresh\<close>\<close>
  refresh_epg :: bool  \<comment> \<open>\<open>--refresh-epg\<close>\<close>
  git_ok :: bool  \<comment> \<open>\<open>git clone\<close> or \<open>git pull\<close> exits with status 0\<close>
  npm_ok :: bool  \<comment> \<open>\<open>npm install\<close> exits with status 0\<close>
  m3u_download :: "string option"  \<comment> \<open>the playlist text, \<open>None\<close> where the download raises\<close>
  sites :: "site_file list"  \<comment> \<open>the catalog files under \<open>epg/sites\<close>\<close>
  time_load :: real  \<comment> \<open>the clock when the cache is loaded\<close>
  time_save :: real  \<comment> \<open>the clock when the cache is saved\<close>
  time_guide :: real  \<comment> \<open>the clock when the guide's age is checked\<close>
  grab_ok :: bool  \<comment> \<open>\<open>npm run grab\<close> exits with status 0\<close>
  grab_guide :: bool  \<comment> \<open>\<open>epg/guide.xml\<close> exists after the grab\<close>
  time_copy :: real  \<comment> \<open>the clock when the guide is copied\<close>

datatype outcome =
    Returned  \<comment> \<open>\<open>main\<close> returns: exit status 0\<close>
  | SystemExit int  \<comment> \<open>\<open>sys.exit(n)\<close>\<close>
  | Uncaught  \<comment> \<open>an exception leaves \<open>main\<close>: traceback and exit status 1\<close>

definition playlist_text :: "channel list \<Rightarrow> string" where
  \<comment> \<open>What lines 280 to 282 write.\<close>
  "playlist_text ms = ''#EXTM3U'' @ [CHR 0x0A] @ concat (map (\<lambda>c. full_entry c @ [CHR 0x0A]) ms)"

definition finish :: "env \<Rightarrow> channel list \<Rightarrow> element \<Rightarrow> int \<Rightarrow> run_files \<Rightarrow> outcome \<times> run_files" where
  \<comment> \<open>Lines 264 to 355, from the values of \<open>matched_channels\<close>, \<open>channels_root\<close> and
      \<open>matched_count\<close>. The whitespace that \<open>ET.indent\<close> sets is not represented.\<close>
  "finish env ms rt n fs =
     (if n = 0 then (SystemExit 1, fs)
      else
        (let fs1 = fs\<lparr>channels_file := Some rt, playlist_file := Some (playlist_text ms)\<rparr>
         in if \<not> refresh_epg env \<and> is_guide_recent (time_guide env) (guide_file fs1)
            then (Returned, fs1)
            else if \<not> grab_ok env then (SystemExit 1, fs1)
            else if grab_guide env then (Returned, fs1\<lparr>guide_file := Some (time_copy env)\<rparr>)
            else (Returned, fs1)))"

definition main :: "ext \<Rightarrow> xml_lib \<Rightarrow> env \<Rightarrow> run_files \<Rightarrow> outcome \<times> run_files" where
  \<comment> \<open>\<open>run_command\<close> runs its command with \<open>check=True\<close>, so a command that fails raises
      out of \<open>main\<close>, as a failed download and a failed \<open>ET.tostring\<close> do.\<close>
  "main ext lib env fs =
     (if \<not> git_ok env \<or> \<not> npm_ok env then (Uncaught, fs)
      else
        (case (if refresh env then None else load_channel_cache (time_load env) (cache_file fs)) of
           Some cache \<Rightarrow>
             finish env (matched_channels cache) (channels_root cache)
               (int (length (matched_channels cache))) fs
         | None \<Rightarrow>
             (case m3u_download env of
                None \<Rightarrow> (Uncaught, fs)
              | Some m3u_content \<Rightarrow>
                  (let st = match_pass ext (sites env) (parse_m3u m3u_content)
                   in case save_channel_cache lib (time_save env) (matched_channels st)
                             (channels_root st) fs of
                        None \<Rightarrow> (Uncaught, fs)
                      | Some fs1 \<Rightarrow>
                          finish env (matched_channels st) (channels_root st) (matched_count st)
                            fs1))))"

section \<open>Words for the statements about the run\<close>

definition has_id :: "channel \<Rightarrow> bool" where
  \<comment> \<open>\<open>tvg_id\<close> is neither \<open>None\<close> nor the empty string.\<close>
  "has_id c = (case tvg_id c of None \<Rightarrow> False | Some i \<Rightarrow> i \<noteq> [])"

definition lookup :: "ext \<Rightarrow> site_file list \<Rightarrow> channel \<Rightarrow> element option" where
  \<comment> \<open>What the scanner returns for a channel that has an identifier.\<close>
  "lookup ext sites_dir c =
     (case tvg_id c of
        None \<Rightarrow> None
      | Some i \<Rightarrow> if i = [] then None else find_channel_in_sites ext i sites_dir)"

definition found :: "ext \<Rightarrow> site_file list \<Rightarrow> channel \<Rightarrow> bool" where
  "found ext sites_dir c \<longleftrightarrow> lookup ext sites_dir c \<noteq> None"

subsection \<open>Inputs of the examples\<close>

definition playlist_example :: string where
  \<comment> \<open>A header, an entry with an auxiliary line and a blank line before its URL, a line
      outside an entry, and a last entry that no URL follows.\<close>
  "playlist_example =
     ''#EXTM3U\<newline>#EXTINF:-1 tvg-id='' @ [dquote] @ ''abc'' @ [dquote]
       @ '',A\<newline>#EXTVLCOPT:x\<newline>\<newline> http://a \<newline>note\<newline>#EXTINF:-1,B\<newline>#EXTVLCOPT:y\<newline>''"

definition playlist_example_channel :: channel where
  "playlist_example_channel =
     \<lparr>tvg_id = Some ''abc'',
      metadata_lines = [''#EXTINF:-1 tvg-id='' @ [dquote] @ ''abc'' @ [dquote] @ '',A'', ''#EXTVLCOPT:x''],
      stream_url = ''http://a'',
      full_entry = ''#EXTINF:-1 tvg-id='' @ [dquote] @ ''abc'' @ [dquote]
        @ '',A\<newline>#EXTVLCOPT:x\<newline>http://a''\<rparr>"

definition injected_id :: string where
  \<comment> \<open>An identifier that closes the quote and the bracket of the query and opens them
      again: \<open>a'][@xmltv_id='a\<close>.\<close>
  "injected_id = ''a'' @ [squote] @ ''][@xmltv_id='' @ [squote] @ ''a''"

definition quoted_id :: string where
  \<comment> \<open>\<open>a'b\<close>\<close>
  "quoted_id = ''a'' @ [squote] @ ''b''"

definition channel_a :: element where
  "channel_a =
     Element ''channel'' [(''site'', ''example.com''), (''xmltv_id'', ''a''), (''site_id'', ''1'')]
       (Some ''A'') None []"

definition channel_q :: element where
  "channel_q =
     Element ''channel'' [(''site'', ''example.com''), (''xmltv_id'', quoted_id), (''site_id'', ''2'')]
       (Some ''Q'') None []"

definition catalog_example :: "site_file list" where
  \<comment> \<open>A file that does not parse, and a file with the two definitions.\<close>
  "catalog_example =
     [Unreadable, Document (Element ''channels'' [] None None [channel_q, channel_a])]"

definition injected_playlist :: string where
  "injected_playlist =
     ''#EXTINF:-1 tvg-id='' @ [dquote] @ injected_id @ [dquote] @ '',A\<newline>http://a''"

definition no_ext :: ext where
  \<comment> \<open>For the examples: no example reaches a selector of \<open>ext\<close>.\<close>
  "no_ext sel rt result = None"

definition no_lib :: xml_lib where
  \<comment> \<open>For the examples: every tree that an example writes is \<open>simple\<close>.\<close>
  "no_lib e = None"

definition example_files :: run_files where
  "example_files = \<lparr>cache_file = NoFile, channels_file = None, playlist_file = None, guide_file = None\<rparr>"

definition example_text :: string where
  "example_text = ''#EXTM3U'' @ [CHR 0x0A] @ ''#EXTINF:-1 tvg-id='' @ [dquote] @ ''abc'' @ [dquote] @ '',A''
     @ [CHR 0x0A] @ ''http://a''"

definition example_env :: env where
  "example_env =
     \<lparr>refresh = False, refresh_epg = False, git_ok = True, npm_ok = True,
      m3u_download = Some example_text, sites = [],
      time_load = 0, time_save = 10, time_guide = 20,
      grab_ok = True, grab_guide = True, time_copy = 30\<rparr>"

definition empty_cache :: cache_content where
  "empty_cache = Stored \<lparr>timestamp = Number 10, stored_channels = [],
      channels_xml = XmlOf (Element ''channels'' [] None None [])\<rparr>"

section \<open>The parser by recursion on the lines\<close>

lemma collect_metadata_eq:
  "collect_metadata lines i ms =
     (i + length (takeWhile is_aux (drop i lines)),
      ms @ map strip (takeWhile is_aux (drop i lines)))"
proof (induction lines i ms rule: collect_metadata.induct)
  case (1 lines i ms)
  show ?case
  proof (cases "i < length lines \<and> is_aux (lines ! i)")
    case True
    then have d: "drop i lines = lines ! i # drop (i + 1) lines"
      by (simp add: Cons_nth_drop_Suc)
    from True "1" show ?thesis
      by (subst collect_metadata.simps) (simp add: d)
  next
    case False
    then have "takeWhile is_aux (drop i lines) = []"
      by (cases "i < length lines") (simp_all add: Cons_nth_drop_Suc [symmetric])
    with False show ?thesis
      by (subst collect_metadata.simps) auto
  qed
qed

lemma collect_metadata_hd: "hd (snd (collect_metadata lines i (m # ms))) = m"
  by (simp add: collect_metadata_eq)

lemma skip_blank_eq:
  "skip_blank lines i = i + length (takeWhile is_blank (drop i lines))"
proof (induction lines i rule: skip_blank.induct)
  case (1 lines i)
  show ?case
  proof (cases "i < length lines \<and> is_blank (lines ! i)")
    case True
    then have d: "drop i lines = lines ! i # drop (i + 1) lines"
      by (simp add: Cons_nth_drop_Suc)
    from True "1" show ?thesis
      by (subst skip_blank.simps) (simp add: d)
  next
    case False
    then have "takeWhile is_blank (drop i lines) = []"
      by (cases "i < length lines") (simp_all add: Cons_nth_drop_Suc [symmetric])
    with False show ?thesis
      by (subst skip_blank.simps) auto
  qed
qed

lemma drop_takeWhile_length: "drop (length (takeWhile P xs)) xs = dropWhile P xs"
  by (induction xs) auto

lemma parse_loop_eq: "parse_loop lines i acc = acc @ parse_lines (drop i lines)"
proof (induction lines i acc rule: parse_loop.induct)
  case (1 lines i channels)
  show ?case
  proof (cases "i < length lines")
    case False
    then show ?thesis by (subst parse_loop.simps) simp
  next
    case i: True
    then have d: "drop i lines = lines ! i # drop (Suc i) lines"
      by (simp add: Cons_nth_drop_Suc)
    show ?thesis
    proof (cases "is_extinf (lines ! i)")
      case False
      with i "1.IH"(3) show ?thesis
        by (subst parse_loop.simps) (simp add: d)
    next
      case True
      define rest where "rest = drop (Suc i) lines"
      define tw where "tw = takeWhile is_aux rest"
      define j where "j = i + 1 + length tw"
      define ms where "ms = strip (lines ! i) # map strip tw"
      define r where "r = dropWhile is_blank (dropWhile is_aux rest)"
      define k where "k = skip_blank lines j"
      have cm: "collect_metadata lines (i + 1) [strip (lines ! i)] = (j, ms)"
        by (simp add: collect_metadata_eq j_def ms_def tw_def rest_def)
      have cm': "collect_metadata lines (Suc i) [strip (lines ! i)] = (j, ms)"
        using cm by simp
      have "drop j lines = drop (length tw) rest"
        by (simp add: j_def rest_def ac_simps)
      then have dj: "drop j lines = dropWhile is_aux rest"
        by (simp add: tw_def drop_takeWhile_length)
      have k: "k = j + length (takeWhile is_blank (dropWhile is_aux rest))"
        by (simp add: k_def skip_blank_eq dj)
      have "drop k lines = drop (length (takeWhile is_blank (dropWhile is_aux rest))) (drop j lines)"
        by (simp add: k ac_simps)
      then have dk: "drop k lines = r"
        by (simp add: dj r_def drop_takeWhile_length)
      have pl: "parse_lines (drop i lines) =
          (case r of [] \<Rightarrow> [] | u # rest' \<Rightarrow> make_channel ms (strip u) # parse_lines rest')"
        using True unfolding ms_def tw_def r_def rest_def by (simp add: d)
      show ?thesis
      proof (cases "k < length lines")
        case kl: True
        then have dk': "r = lines ! k # drop (k + 1) lines"
          using dk by (simp add: Cons_nth_drop_Suc)
        have "parse_loop lines i channels =
            parse_loop lines (k + 1) (channels @ [make_channel ms (strip (lines ! k))])"
          using i True kl by (subst parse_loop.simps) (simp add: cm' k_def)
        also have "\<dots> = (channels @ [make_channel ms (strip (lines ! k))]) @ parse_lines (drop (k + 1) lines)"
          using "1.IH"(1) [OF i True cm [symmetric]] kl by (simp add: k_def)
        also have "\<dots> = channels @ parse_lines (drop i lines)"
          by (simp add: pl dk')
        finally show ?thesis .
      next
        case kl: False
        then have r: "r = []" using dk by simp
        have "parse_loop lines i channels = parse_loop lines (k + 1) channels"
          using i True kl by (subst parse_loop.simps) (simp add: cm' k_def)
        also have "\<dots> = channels"
          using kl by (subst parse_loop.simps) simp
        also have "\<dots> = channels @ parse_lines (drop i lines)"
          by (simp add: pl r)
        finally show ?thesis .
      qed
    qed
  qed
qed

lemma list_all_takeWhile: "list_all P (takeWhile P xs)"
  by (induction xs) auto

lemma dropWhile_Cons_not: "dropWhile P xs = y # ys \<Longrightarrow> \<not> P y"
  by (induction xs) (auto split: if_splits)

lemma parse_lines_layout:
  "c \<in> set (parse_lines ls) \<Longrightarrow>
     \<exists>pre p aux blanks u post.
       ls = pre @ p # aux @ blanks @ u # post
       \<and> is_extinf p \<and> list_all is_aux aux \<and> \<not> is_aux (hd (blanks @ [u]))
       \<and> list_all is_blank blanks \<and> \<not> is_blank u
       \<and> c = make_channel (map strip (p # aux)) (strip u)"
proof (induction ls rule: parse_lines.induct)
  case 1
  then show ?case by simp
next
  case (2 l ls)
  show ?case
  proof (cases "is_extinf l")
    case False
    with "2.prems" have "c \<in> set (parse_lines ls)" by simp
    with "2.IH"(2) False obtain pre p aux blanks u post where
      "ls = pre @ p # aux @ blanks @ u # post"
      "is_extinf p \<and> list_all is_aux aux \<and> \<not> is_aux (hd (blanks @ [u]))
       \<and> list_all is_blank blanks \<and> \<not> is_blank u
       \<and> c = make_channel (map strip (p # aux)) (strip u)"
      by blast
    then have "l # ls = (l # pre) @ p # aux @ blanks @ u # post \<and>
      is_extinf p \<and> list_all is_aux aux \<and> \<not> is_aux (hd (blanks @ [u]))
       \<and> list_all is_blank blanks \<and> \<not> is_blank u
       \<and> c = make_channel (map strip (p # aux)) (strip u)"
      by simp
    then show ?thesis by blast
  next
    case True
    define aux where "aux = takeWhile is_aux ls"
    define dw where "dw = dropWhile is_aux ls"
    define blanks where "blanks = takeWhile is_blank dw"
    define r where "r = dropWhile is_blank dw"
    have ls: "ls = aux @ blanks @ r"
      by (simp add: aux_def blanks_def r_def dw_def)
    have unf: "parse_lines (l # ls) =
        (case r of [] \<Rightarrow> []
         | u # rest \<Rightarrow> make_channel (strip l # map strip aux) (strip u) # parse_lines rest)"
      using True unfolding r_def dw_def aux_def by simp
    show ?thesis
    proof (cases r)
      case Nil
      with unf "2.prems" show ?thesis
        by simp
    next
      case (Cons u rest)
      have nb: "\<not> is_blank u"
        using Cons dropWhile_Cons_not [of is_blank dw u rest] by (simp add: r_def)
      have na: "\<not> is_aux (hd (blanks @ [u]))"
      proof (cases blanks)
        case Nil
        then have "dw = u # rest"
          using Cons by (metis append_Nil blanks_def r_def takeWhile_dropWhile_id)
        then show ?thesis
          using Nil dropWhile_Cons_not [of is_aux ls u rest] by (simp add: dw_def)
      next
        case (Cons b bs)
        then have "dw = b # bs @ r"
          by (metis append_Cons blanks_def r_def takeWhile_dropWhile_id)
        then show ?thesis
          using Cons dropWhile_Cons_not [of is_aux ls b "bs @ r"] by (simp add: dw_def)
      qed
      from "2.prems" unf Cons
      have "c = make_channel (strip l # map strip aux) (strip u) \<or> c \<in> set (parse_lines rest)"
        by simp
      then show ?thesis
      proof
        assume "c = make_channel (strip l # map strip aux) (strip u)"
        then have c: "c = make_channel (map strip (l # aux)) (strip u)"
          by simp
        have e: "l # ls = [] @ l # aux @ blanks @ u # rest"
          using ls Cons by simp
        have a: "list_all is_aux aux" "list_all is_blank blanks"
          by (simp_all add: aux_def blanks_def list_all_takeWhile)
        from c e a True nb na show ?thesis by blast
      next
        assume "c \<in> set (parse_lines rest)"
        with "2.IH"(1) [OF True] Cons obtain pre p aux' blanks' u' post where
          "rest = pre @ p # aux' @ blanks' @ u' # post"
          "is_extinf p \<and> list_all is_aux aux' \<and> \<not> is_aux (hd (blanks' @ [u']))
           \<and> list_all is_blank blanks' \<and> \<not> is_blank u'
           \<and> c = make_channel (map strip (p # aux')) (strip u')"
          unfolding r_def dw_def by blast
        moreover from this have "l # ls = (l # aux @ blanks @ u # pre) @ p # aux' @ blanks' @ u' # post"
          using ls Cons by simp
        ultimately show ?thesis by blast
      qed
    qed
  qed
qed

lemma parse_m3u_lines: "parse_m3u text = parse_lines (split (CHR 0x0A) text)"
  by (simp add: parse_m3u_def parse_loop_eq)

lemma split_not_Nil: "split sep s \<noteq> []"
  by (induction s) (auto split: list.splits)

lemma join_split: "join [sep] (split sep s) = s"
proof (induction s)
  case Nil
  show ?case by simp
next
  case (Cons c cs)
  obtain l ls where l: "split sep cs = l # ls"
    using split_not_Nil [of sep cs] by (cases "split sep cs") auto
  show ?case
  proof (cases "c = sep")
    case True
    with Cons l show ?thesis by simp
  next
    case False
    with Cons l show ?thesis by (cases ls) auto
  qed
qed

lemma join_snoc: "ms \<noteq> [] \<Longrightarrow> join sep (ms @ [u]) = join sep ms @ sep @ u"
  by (induction sep ms rule: join.induct) auto

lemma startswith_nonempty: "startswith s (c # p) \<Longrightarrow> s \<noteq> []"
  by (auto simp: startswith_def)

lemma is_extinf_strip: "is_extinf l \<Longrightarrow> strip l \<noteq> []"
  unfolding is_extinf_def by (rule startswith_nonempty)

lemma is_aux_strip: "is_aux l \<Longrightarrow> strip l \<noteq> []"
  unfolding is_aux_def using startswith_nonempty by blast

lemma is_aux_directive: "is_aux l \<Longrightarrow> is_directive l"
  by (simp add: is_aux_def is_directive_def)

lemma filter_strip_aux: "list_all is_aux aux \<Longrightarrow> filter (\<lambda>l. l \<noteq> []) (map strip aux) = map strip aux"
  by (induction aux) (auto dest: is_aux_strip)

lemma filter_strip_blanks: "list_all is_blank bs \<Longrightarrow> filter (\<lambda>l. l \<noteq> []) (map strip bs) = []"
  by (induction bs) (auto simp: is_blank_def)

lemma takeWhile_all_append:
  "list_all P xs \<Longrightarrow> ys = [] \<or> \<not> P (hd ys) \<Longrightarrow> takeWhile P (xs @ ys) = xs"
  by (induction xs) (auto simp: takeWhile_eq_Nil_iff)

lemma dropWhile_all_append:
  "list_all P xs \<Longrightarrow> ys = [] \<or> \<not> P (hd ys) \<Longrightarrow> dropWhile P (xs @ ys) = ys"
  by (induction xs) (auto simp: dropWhile_eq_self_iff)

lemma is_blank_not_aux: "is_blank l \<Longrightarrow> \<not> is_aux l"
  by (auto simp: is_blank_def is_aux_def startswith_def)

lemma parse_lines_truncated: "truncated t \<Longrightarrow> parse_lines t = []"
proof (cases t)
  case Nil
  then show ?thesis by simp
next
  case (Cons p rest)
  assume "truncated t"
  with Cons have p: "is_extinf p" and b: "list_all is_blank (dropWhile is_aux rest)"
    by simp_all
  from b have "dropWhile is_blank (dropWhile is_aux rest) = []"
    by (simp add: list_all_iff)
  with p Cons show ?thesis by (simp del: dropWhile_eq_Nil_conv)
qed

lemma parse_lines_entry:
  assumes "valid_block (Entry p aux blanks u)"
  shows "parse_lines (render (Entry p aux blanks u) @ rest)
    = make_channel (map strip (p # aux)) (strip u) # parse_lines rest"
proof -
  from assms have p: "is_extinf p" and a: "list_all is_aux aux" and b: "list_all is_blank blanks"
    and u: "\<not> is_blank u" "\<not> is_directive u"
    by simp_all
  from u(2) have ua: "\<not> is_aux u"
    using is_aux_directive by blast
  have h: "blanks @ u # rest = [] \<or> \<not> is_aux (hd (blanks @ u # rest))"
    using b ua by (cases blanks) (auto dest: is_blank_not_aux)
  have tw: "takeWhile is_aux (aux @ blanks @ u # rest) = aux"
    using takeWhile_all_append [OF a h] .
  have dw: "dropWhile is_aux (aux @ blanks @ u # rest) = blanks @ u # rest"
    using dropWhile_all_append [OF a h] .
  have db: "dropWhile is_blank (blanks @ u # rest) = u # rest"
    using dropWhile_all_append [OF b, of "u # rest"] u(1) by simp
  show ?thesis
    using p by (simp add: tw dw db)
qed

lemma parse_lines_blocks:
  "list_all valid_block bs \<Longrightarrow> truncated t \<Longrightarrow>
     parse_lines (concat (map render bs) @ t) = concat (map records_of bs)"
proof (induction bs)
  case Nil
  then show ?case by (simp add: parse_lines_truncated)
next
  case (Cons b bs)
  then have IH: "parse_lines (concat (map render bs) @ t) = concat (map records_of bs)"
    by simp
  show ?case
  proof (cases b)
    case (Other l)
    with Cons.prems IH show ?thesis by simp
  next
    case (Entry p aux blanks u)
    with Cons.prems have v: "valid_block (Entry p aux blanks u)" by simp
    have "parse_lines (concat (map render (b # bs)) @ t)
        = parse_lines (render (Entry p aux blanks u) @ (concat (map render bs) @ t))"
      by (simp add: Entry)
    also have "\<dots> = make_channel (map strip (p # aux)) (strip u)
        # parse_lines (concat (map render bs) @ t)"
      by (rule parse_lines_entry [OF v])
    finally show ?thesis
      by (simp add: IH Entry)
  qed
qed

lemma length_records: "length (concat (map records_of bs)) = length (filter is_entry bs)"
proof (induction bs)
  case Nil
  show ?case by simp
next
  case (Cons b bs)
  then show ?case by (cases b) simp_all
qed

section \<open>The parser on the examples\<close>

lemmas parser_eval =
  parse_m3u_def parse_loop.simps collect_metadata.simps skip_blank.simps is_extinf_def
  is_aux_def is_blank_def strip_def isspace_def startswith_def make_channel_def dquote_def

lemma example_parse:
  "parse_m3u example_text =
     [\<lparr>tvg_id = Some ''abc'',
       metadata_lines = [''#EXTINF:-1 tvg-id='' @ [dquote] @ ''abc'' @ [dquote] @ '',A''],
       stream_url = ''http://a'',
       full_entry = ''#EXTINF:-1 tvg-id='' @ [dquote] @ ''abc'' @ [dquote] @ '',A'' @ [CHR 0x0A] @ ''http://a''\<rparr>]"
  by (simp add: example_text_def parser_eval)

lemma playlist_example_lines:
  "split (CHR 0x0A) playlist_example =
     [''#EXTM3U'', ''#EXTINF:-1 tvg-id='' @ [dquote] @ ''abc'' @ [dquote] @ '',A'',
      ''#EXTVLCOPT:x'', [], '' http://a '', ''note'', ''#EXTINF:-1,B'', ''#EXTVLCOPT:y'', []]"
  by (simp add: playlist_example_def dquote_def)

lemma playlist_example_parse: "parse_m3u playlist_example = [playlist_example_channel]"
  by (simp add: playlist_example_def playlist_example_channel_def parser_eval)

section \<open>What the parser returns\<close>

text \<open>
  C1 (as the code has it): every channel that \<open>parse_m3u\<close> returns comes from a primary
  \<open>#EXTINF\<close> line \<open>p\<close> of the input, followed by the auxiliary directive lines \<open>aux\<close>
  (all of them: the line after them is not one), then by blank lines \<open>blanks\<close>, then by a
  line \<open>u\<close> that is not blank. The metadata are \<open>p\<close> and \<open>aux\<close> trimmed, and the stream
  URL is \<open>u\<close> trimmed: the first line after the metadata that is not blank. Every line
  between \<open>p\<close> and \<open>u\<close> is blank or a directive, so \<open>u\<close> is the first later line that is
  neither whenever \<open>u\<close> is no directive itself; the parser does not look at how \<open>u\<close>
  begins.
\<close>

theorem stream_url_is_next_nonblank_line:
  "\<forall>c \<in> set (parse_m3u text). \<exists>pre p aux blanks u post.
      split (CHR 0x0A) text = pre @ p # aux @ blanks @ u # post
      \<and> is_extinf p \<and> list_all is_aux aux \<and> \<not> is_aux (hd (blanks @ [u]))
      \<and> list_all is_blank blanks \<and> \<not> is_blank u
      \<and> metadata_lines c = map strip (p # aux) \<and> stream_url c = strip u
      \<and> list_all (\<lambda>l. is_blank l \<or> is_directive l) (aux @ blanks)"
proof
  fix c
  assume "c \<in> set (parse_m3u text)"
  then obtain pre p aux blanks u post where
    l: "split (CHR 0x0A) text = pre @ p # aux @ blanks @ u # post"
    and p: "is_extinf p" "list_all is_aux aux" "\<not> is_aux (hd (blanks @ [u]))"
      "list_all is_blank blanks" "\<not> is_blank u"
    and c: "c = make_channel (map strip (p # aux)) (strip u)"
    using parse_lines_layout [of c "split (CHR 0x0A) text"] unfolding parse_m3u_lines by blast
  from p(2,4) have "list_all (\<lambda>l. is_blank l \<or> is_directive l) (aux @ blanks)"
    by (auto simp: list_all_iff dest: is_aux_directive)
  moreover from c have "metadata_lines c = map strip (p # aux)" "stream_url c = strip u"
    by (simp_all add: make_channel_def)
  ultimately show "\<exists>pre p aux blanks u post.
      split (CHR 0x0A) text = pre @ p # aux @ blanks @ u # post
      \<and> is_extinf p \<and> list_all is_aux aux \<and> \<not> is_aux (hd (blanks @ [u]))
      \<and> list_all is_blank blanks \<and> \<not> is_blank u
      \<and> metadata_lines c = map strip (p # aux) \<and> stream_url c = strip u
      \<and> list_all (\<lambda>l. is_blank l \<or> is_directive l) (aux @ blanks)"
    using l p by blast
qed

theorem stream_url_is_next_nonblank_line_witness:
  "playlist_example_channel \<in> set (parse_m3u playlist_example)
   \<and> (\<exists>pre p aux blanks u post.
      split (CHR 0x0A) playlist_example = pre @ p # aux @ blanks @ u # post
      \<and> is_extinf p \<and> list_all is_aux aux \<and> \<not> is_aux (hd (blanks @ [u]))
      \<and> list_all is_blank blanks \<and> \<not> is_blank u
      \<and> metadata_lines playlist_example_channel = map strip (p # aux)
      \<and> stream_url playlist_example_channel = strip u
      \<and> list_all (\<lambda>l. is_blank l \<or> is_directive l) (aux @ blanks))"
proof -
  have m: "playlist_example_channel \<in> set (parse_m3u playlist_example)"
    by (simp add: playlist_example_parse)
  from stream_url_is_next_nonblank_line [of playlist_example] m show ?thesis
    by blast
qed

text \<open>
  A primary line right after another is taken as the stream URL of the first, although it
  is a directive and a line that is neither blank nor a directive follows.
\<close>

theorem directive_taken_as_stream_url:
  "split (CHR 0x0A) ''#EXTINF:a\<newline>#EXTINF:b\<newline>http://x''
     = [''#EXTINF:a'', ''#EXTINF:b'', ''http://x'']
   \<and> map stream_url (parse_m3u ''#EXTINF:a\<newline>#EXTINF:b\<newline>http://x'') = [''#EXTINF:b'']
   \<and> is_directive ''#EXTINF:b''
   \<and> \<not> is_blank ''http://x'' \<and> \<not> is_directive ''http://x''"
  by (simp add: parser_eval is_directive_def)

lemma rejoined_exact:
  "list_all (\<lambda>l. strip l = l \<and> l \<noteq> []) entry \<Longrightarrow>
     join sep (filter (\<lambda>l. l \<noteq> []) (map strip entry)) = join sep entry"
proof -
  assume a: "list_all (\<lambda>l. strip l = l \<and> l \<noteq> []) entry"
  then have "map strip entry = entry"
    by (simp add: list_all_iff map_idI)
  moreover from a have "filter (\<lambda>l. l \<noteq> []) entry = entry"
    by (simp add: list_all_iff filter_id_conv)
  ultimately show ?thesis by simp
qed

text \<open>
  C2 (as the code has it): the lines of the input, joined by newlines, are the input; and
  for every channel that \<open>parse_m3u\<close> returns there is a run \<open>entry\<close> of consecutive
  lines of the input, from a primary line to a line that is not blank, such that joining
  the channel's \<open>metadata_lines\<close> and \<open>stream_url\<close> with newlines gives \<open>full_entry\<close>
  and is the join of the lines of \<open>entry\<close> trimmed, the empty ones left out. That is
  the text of \<open>entry\<close> itself when no line of it has whitespace around it or is blank.
\<close>

theorem rejoined_entry_is_trimmed_text:
  "join [CHR 0x0A] (split (CHR 0x0A) text) = text
   \<and> (\<forall>c \<in> set (parse_m3u text). \<exists>pre entry post.
        split (CHR 0x0A) text = pre @ entry @ post
        \<and> entry \<noteq> [] \<and> is_extinf (hd entry) \<and> \<not> is_blank (last entry)
        \<and> full_entry c = join [CHR 0x0A] (metadata_lines c @ [stream_url c])
        \<and> join [CHR 0x0A] (metadata_lines c @ [stream_url c])
            = join [CHR 0x0A] (filter (\<lambda>l. l \<noteq> []) (map strip entry))
        \<and> (list_all (\<lambda>l. strip l = l \<and> l \<noteq> []) entry \<longrightarrow>
             join [CHR 0x0A] (metadata_lines c @ [stream_url c]) = join [CHR 0x0A] entry))"
proof (intro conjI ballI)
  show "join [CHR 0x0A] (split (CHR 0x0A) text) = text"
    by (rule join_split)
next
  fix c
  assume "c \<in> set (parse_m3u text)"
  then obtain pre p aux blanks u post where
    l: "split (CHR 0x0A) text = pre @ p # aux @ blanks @ u # post"
    and p: "is_extinf p" "list_all is_aux aux" "list_all is_blank blanks" "\<not> is_blank u"
    and c: "c = make_channel (map strip (p # aux)) (strip u)"
    using parse_lines_layout [of c "split (CHR 0x0A) text"] unfolding parse_m3u_lines by blast
  define entry where "entry = p # aux @ blanks @ [u]"
  have 1: "split (CHR 0x0A) text = pre @ entry @ post"
    by (simp add: l entry_def)
  have 2: "entry \<noteq> []" "is_extinf (hd entry)" "\<not> is_blank (last entry)"
    using p by (simp_all add: entry_def)
  have 3: "full_entry c = join [CHR 0x0A] (metadata_lines c @ [stream_url c])"
    using join_snoc [of "strip p # map strip aux" "[CHR 0x0A]" "strip u"]
    by (simp add: c make_channel_def)
  have f: "filter (\<lambda>l. l \<noteq> []) (map strip entry) = metadata_lines c @ [stream_url c]"
    using p is_extinf_strip [OF p(1)]
    by (simp add: entry_def c make_channel_def filter_strip_aux filter_strip_blanks is_blank_def)
  have 4: "join [CHR 0x0A] (metadata_lines c @ [stream_url c])
            = join [CHR 0x0A] (filter (\<lambda>l. l \<noteq> []) (map strip entry))"
    by (simp add: f)
  have 5: "list_all (\<lambda>l. strip l = l \<and> l \<noteq> []) entry \<longrightarrow>
             join [CHR 0x0A] (metadata_lines c @ [stream_url c]) = join [CHR 0x0A] entry"
    using rejoined_exact [of entry "[CHR 0x0A]"] by (simp add: 4)
  from 1 2 3 4 5 show "\<exists>pre entry post.
        split (CHR 0x0A) text = pre @ entry @ post
        \<and> entry \<noteq> [] \<and> is_extinf (hd entry) \<and> \<not> is_blank (last entry)
        \<and> full_entry c = join [CHR 0x0A] (metadata_lines c @ [stream_url c])
        \<and> join [CHR 0x0A] (metadata_lines c @ [stream_url c])
            = join [CHR 0x0A] (filter (\<lambda>l. l \<noteq> []) (map strip entry))
        \<and> (list_all (\<lambda>l. strip l = l \<and> l \<noteq> []) entry \<longrightarrow>
             join [CHR 0x0A] (metadata_lines c @ [stream_url c]) = join [CHR 0x0A] entry)"
    by blast
qed

theorem rejoined_entry_is_trimmed_text_witness:
  "playlist_example_channel \<in> set (parse_m3u playlist_example)
   \<and> (\<exists>pre entry post.
        split (CHR 0x0A) playlist_example = pre @ entry @ post
        \<and> entry \<noteq> [] \<and> is_extinf (hd entry) \<and> \<not> is_blank (last entry)
        \<and> full_entry playlist_example_channel
            = join [CHR 0x0A] (metadata_lines playlist_example_channel @ [stream_url playlist_example_channel])
        \<and> join [CHR 0x0A] (metadata_lines playlist_example_channel @ [stream_url playlist_example_channel])
            = join [CHR 0x0A] (filter (\<lambda>l. l \<noteq> []) (map strip entry)))
   \<and> hd (parse_m3u example_text) \<in> set (parse_m3u example_text)
   \<and> (\<exists>pre entry post.
        split (CHR 0x0A) example_text = pre @ entry @ post
        \<and> entry \<noteq> [] \<and> is_extinf (hd entry)
        \<and> list_all (\<lambda>l. strip l = l \<and> l \<noteq> []) entry
        \<and> join [CHR 0x0A] (metadata_lines (hd (parse_m3u example_text))
                              @ [stream_url (hd (parse_m3u example_text))])
            = join [CHR 0x0A] entry)"
proof -
  have m: "playlist_example_channel \<in> set (parse_m3u playlist_example)"
    by (simp add: playlist_example_parse)
  from rejoined_entry_is_trimmed_text [of playlist_example] m
  have a: "\<exists>pre entry post.
        split (CHR 0x0A) playlist_example = pre @ entry @ post
        \<and> entry \<noteq> [] \<and> is_extinf (hd entry) \<and> \<not> is_blank (last entry)
        \<and> full_entry playlist_example_channel
            = join [CHR 0x0A] (metadata_lines playlist_example_channel @ [stream_url playlist_example_channel])
        \<and> join [CHR 0x0A] (metadata_lines playlist_example_channel @ [stream_url playlist_example_channel])
            = join [CHR 0x0A] (filter (\<lambda>l. l \<noteq> []) (map strip entry))"
    by blast
  define c where "c = hd (parse_m3u example_text)"
  have n: "c \<in> set (parse_m3u example_text)"
    by (simp add: c_def example_parse)
  from rejoined_entry_is_trimmed_text [of example_text] n obtain pre entry post where
    e: "split (CHR 0x0A) example_text = pre @ entry @ post"
      "entry \<noteq> []" "is_extinf (hd entry)"
    and x: "list_all (\<lambda>l. strip l = l \<and> l \<noteq> []) entry \<longrightarrow>
             join [CHR 0x0A] (metadata_lines c @ [stream_url c]) = join [CHR 0x0A] entry"
    by blast
  have "list_all (\<lambda>l. strip l = l \<and> l \<noteq> []) (split (CHR 0x0A) example_text)"
    by (simp add: example_text_def strip_def isspace_def dquote_def)
  then have cl: "list_all (\<lambda>l. strip l = l \<and> l \<noteq> []) entry"
    unfolding e(1) by simp
  with x have "join [CHR 0x0A] (metadata_lines c @ [stream_url c]) = join [CHR 0x0A] entry"
    by simp
  with e cl have b: "\<exists>pre entry post.
        split (CHR 0x0A) example_text = pre @ entry @ post
        \<and> entry \<noteq> [] \<and> is_extinf (hd entry)
        \<and> list_all (\<lambda>l. strip l = l \<and> l \<noteq> []) entry
        \<and> join [CHR 0x0A] (metadata_lines c @ [stream_url c]) = join [CHR 0x0A] entry"
    by blast
  from m a n b show ?thesis
    unfolding c_def by blast
qed

text \<open>
  An entry with a blank line between its primary line and its URL is not what the join
  gives back: the blank line is gone.
\<close>

theorem blank_line_lost_on_rejoin:
  "length (parse_m3u ''#EXTINF:-1,A\<newline>\<newline>http://x'') = 1
   \<and> join [CHR 0x0A]
        (metadata_lines (hd (parse_m3u ''#EXTINF:-1,A\<newline>\<newline>http://x''))
         @ [stream_url (hd (parse_m3u ''#EXTINF:-1,A\<newline>\<newline>http://x''))])
       = ''#EXTINF:-1,A\<newline>http://x''
   \<and> ''#EXTINF:-1,A\<newline>http://x'' \<noteq> ''#EXTINF:-1,A\<newline>\<newline>http://x''"
  by (simp add: parser_eval)

text \<open>
  C8 (as the code has it): let the lines of the text be a sequence of blocks, each a line
  that is no primary line or a complete entry (a primary line, auxiliary directive lines,
  blank lines, and a URL line that is neither blank nor a directive), followed by nothing
  or by one last primary line with only auxiliary lines and then blank lines after it.
  Then \<open>parse_m3u\<close> returns the records of the complete entries in order, one each, and
  none for the lines outside entries and for the last entry. The parser is a total
  function: no line makes it fail.
\<close>

theorem one_record_per_complete_entry:
  assumes "split (CHR 0x0A) text = concat (map render bs) @ t"
    and "list_all valid_block bs" and "truncated t"
  shows "parse_m3u text = concat (map records_of bs)
       \<and> length (parse_m3u text) = length (filter is_entry bs)"
  using assms by (simp add: parse_m3u_lines parse_lines_blocks length_records)

theorem one_record_per_complete_entry_witness:
  "split (CHR 0x0A) playlist_example =
     concat (map render
       [Other ''#EXTM3U'',
        Entry (''#EXTINF:-1 tvg-id='' @ [dquote] @ ''abc'' @ [dquote] @ '',A'') [''#EXTVLCOPT:x''] [[]]
          '' http://a '',
        Other ''note''])
     @ [''#EXTINF:-1,B'', ''#EXTVLCOPT:y'', []]
   \<and> list_all valid_block
       [Other ''#EXTM3U'',
        Entry (''#EXTINF:-1 tvg-id='' @ [dquote] @ ''abc'' @ [dquote] @ '',A'') [''#EXTVLCOPT:x''] [[]]
          '' http://a '',
        Other ''note'']
   \<and> truncated [''#EXTINF:-1,B'', ''#EXTVLCOPT:y'', []]
   \<and> parse_m3u playlist_example = [playlist_example_channel]
   \<and> length (parse_m3u playlist_example) = 1"
proof -
  have 1: "split (CHR 0x0A) playlist_example =
     concat (map render
       [Other ''#EXTM3U'',
        Entry (''#EXTINF:-1 tvg-id='' @ [dquote] @ ''abc'' @ [dquote] @ '',A'') [''#EXTVLCOPT:x''] [[]]
          '' http://a '',
        Other ''note''])
     @ [''#EXTINF:-1,B'', ''#EXTVLCOPT:y'', []]"
    by (simp add: playlist_example_lines)
  have 2: "list_all valid_block
       [Other ''#EXTM3U'',
        Entry (''#EXTINF:-1 tvg-id='' @ [dquote] @ ''abc'' @ [dquote] @ '',A'') [''#EXTVLCOPT:x''] [[]]
          '' http://a '',
        Other ''note'']"
    by (simp add: parser_eval is_directive_def)
  have 3: "truncated [''#EXTINF:-1,B'', ''#EXTVLCOPT:y'', []]"
    by (simp add: parser_eval)
  from one_record_per_complete_entry [OF 1 2 3]
  have "parse_m3u playlist_example = [playlist_example_channel]
      \<and> length (parse_m3u playlist_example) = 1"
    by (simp add: make_channel_def playlist_example_channel_def startswith_def strip_def isspace_def dquote_def)
  with 1 2 3 show ?thesis by blast
qed

text \<open>
  An entry is dropped only at the end of the input: of two primary lines with no URL line
  anywhere, the second is taken as the URL of the first and one record is returned.
\<close>

theorem record_without_url_line:
  "split (CHR 0x0A) ''#EXTINF:a\<newline>#EXTINF:b'' = [''#EXTINF:a'', ''#EXTINF:b'']
   \<and> list_all is_directive (split (CHR 0x0A) ''#EXTINF:a\<newline>#EXTINF:b'')
   \<and> length (parse_m3u ''#EXTINF:a\<newline>#EXTINF:b'') = 1
   \<and> map stream_url (parse_m3u ''#EXTINF:a\<newline>#EXTINF:b'') = [''#EXTINF:b'']"
  by (simp add: parser_eval is_directive_def)

section \<open>The match pass\<close>

lemma match_loop_step:
  "match_loop ext sd (c # cs) st =
     match_loop ext sd cs
       (if \<not> has_id c then st\<lparr>skipped_count := skipped_count st + 1\<rparr>
        else (case lookup ext sd c of
                None \<Rightarrow> st
              | Some e \<Rightarrow> st\<lparr>channels_root := append (channels_root st) e,
                             matched_channels := matched_channels st @ [c],
                             matched_count := matched_count st + 1\<rparr>))"
  by (simp add: has_id_def lookup_def split: option.splits)

lemma match_loop_result:
  "matched_channels (match_loop ext sd cs st) = matched_channels st @ filter (found ext sd) cs
   \<and> matched_count (match_loop ext sd cs st)
       = matched_count st + int (length (filter (found ext sd) cs))
   \<and> skipped_count (match_loop ext sd cs st)
       = skipped_count st + int (length (filter (\<lambda>c. \<not> has_id c) cs))
   \<and> children (channels_root (match_loop ext sd cs st))
       = children (channels_root st) @ map (\<lambda>c. the (lookup ext sd c)) (filter (found ext sd) cs)
   \<and> tag (channels_root (match_loop ext sd cs st)) = tag (channels_root st)
   \<and> attrib (channels_root (match_loop ext sd cs st)) = attrib (channels_root st)
   \<and> elem_text (channels_root (match_loop ext sd cs st)) = elem_text (channels_root st)
   \<and> tail (channels_root (match_loop ext sd cs st)) = tail (channels_root st)"
proof (induction cs arbitrary: st)
  case Nil
  show ?case by simp
next
  case (Cons c cs)
  have nf: "\<not> has_id c \<Longrightarrow> \<not> found ext sd c"
    by (auto simp: has_id_def found_def lookup_def split: option.splits)
  show ?case
  proof (cases "has_id c")
    case False
    with nf show ?thesis
      by (simp only: match_loop_step Cons.IH) simp
  next
    case True
    show ?thesis
    proof (cases "lookup ext sd c")
      case None
      with True show ?thesis
        by (simp only: match_loop_step Cons.IH) (simp add: found_def)
    next
      case (Some e)
      with True show ?thesis
        by (simp only: match_loop_step Cons.IH) (simp add: found_def append_def)
    qed
  qed
qed

text \<open>
  C4: the match pass goes through the channels in playlist order and splits them three
  ways. The matched channels are the channels with an identifier that the scanner finds,
  in the order of the input; \<open>matched_count\<close> counts them, \<open>skipped_count\<close> counts
  the channels without an identifier, the number of removed channels (what is left of the
  total) counts the channels whose identifier the scanner does not find, and the three
  counts add up to the length of the input.
\<close>

theorem match_partition:
  "matched_channels (match_pass ext sd cs) = filter (found ext sd) cs
   \<and> matched_count (match_pass ext sd cs) = int (length (filter (found ext sd) cs))
   \<and> skipped_count (match_pass ext sd cs) = int (length (filter (\<lambda>c. \<not> has_id c) cs))
   \<and> removed_count cs (match_pass ext sd cs)
        = int (length (filter (\<lambda>c. has_id c \<and> \<not> found ext sd c) cs))
   \<and> matched_count (match_pass ext sd cs) + skipped_count (match_pass ext sd cs)
        + removed_count cs (match_pass ext sd cs) = int (length cs)"
proof -
  have nf: "\<And>c. \<not> has_id c \<Longrightarrow> \<not> found ext sd c"
    by (auto simp: has_id_def found_def lookup_def split: option.splits)
  have "length cs = length (filter (found ext sd) cs) + length (filter (\<lambda>c. \<not> has_id c) cs)
      + length (filter (\<lambda>c. has_id c \<and> \<not> found ext sd c) cs)"
    using nf by (induction cs) auto
  then show ?thesis
    by (simp add: match_pass_def match_loop_result removed_count_def)
qed

lemma match_pass_zero:
  assumes "matched_count (match_pass ext sd cs) = 0"
  shows "matched_channels (match_pass ext sd cs) = []"
    and "channels_root (match_pass ext sd cs) = Element ''channels'' [] None None []"
proof -
  from assms have f: "filter (found ext sd) cs = []"
    by (simp add: match_pass_def match_loop_result)
  then show "matched_channels (match_pass ext sd cs) = []"
    by (simp add: match_pass_def match_loop_result)
  have "children (channels_root (match_pass ext sd cs)) = []"
    "tag (channels_root (match_pass ext sd cs)) = ''channels''"
    "attrib (channels_root (match_pass ext sd cs)) = []"
    "elem_text (channels_root (match_pass ext sd cs)) = None"
    "tail (channels_root (match_pass ext sd cs)) = None"
    using f by (simp_all add: match_pass_def match_loop_result)
  then show "channels_root (match_pass ext sd cs) = Element ''channels'' [] None None []"
    by (cases "channels_root (match_pass ext sd cs)") simp
qed

section \<open>The lookup query\<close>

lemmas scan_eval =
  xpath_tokens.simps scan_def name_len_def brace_len_def name_char_def isspace_def startswith_def squote_def dquote_def

lemma tokens_prefix:
  "xpath_tokens (''.//channel[@xmltv_id='' @ s) =
     [(''.'', []), (''//'', []), ([], ''channel''), (''['', []), (''@'', []),
      ([], ''xmltv_id''), (''='', [])] @ xpath_tokens s"
  by (simp add: scan_eval)

lemma takeWhile_not_mem: "x \<notin> set xs \<Longrightarrow> takeWhile (\<lambda>y. y \<noteq> x) (xs @ x # ys) = xs"
  by (induction xs) auto

lemma tokens_quoted:
  assumes "squote \<notin> set s"
  shows "xpath_tokens (squote # s @ squote # '']'') = [(squote # s @ [squote], []), ('']'', [])]"
proof -
  have tw: "takeWhile (\<lambda>x. x \<noteq> squote) (s @ squote # '']'') = s"
    using assms by (rule takeWhile_not_mem)
  have sc: "scan (squote # s @ squote # '']'') = (Some (squote # s @ [squote], []), length s + 2)"
    by (simp add: scan_def tw)
  have "xpath_tokens '']'' = [('']'', [])]"
    by (simp add: scan_eval)
  then show ?thesis
    by (simp add: xpath_tokens.simps(2) [of squote] sc)
qed

lemma tokens_query:
  assumes "squote \<notin> set i"
  shows "xpath_tokens (xpath_query i) =
     [(''.'', []), (''//'', []), ([], ''channel''), (''['', []), (''@'', []),
      ([], ''xmltv_id''), (''='', []), (squote # i @ [squote], []), ('']'', [])]"
proof -
  have "xpath_query i = ''.//channel[@xmltv_id='' @ (squote # i @ squote # '']'')"
    by (simp add: xpath_query_def)
  then have "xpath_tokens (xpath_query i) =
     [(''.'', []), (''//'', []), ([], ''channel''), (''['', []), (''@'', []),
      ([], ''xmltv_id''), (''='', [])] @ xpath_tokens (squote # i @ squote # '']'')"
    by (simp only: tokens_prefix)
  then show ?thesis
    by (simp add: tokens_quoted [OF assms])
qed

lemma compile_query:
  assumes "squote \<notin> set i"
  shows "compile (xpath_tokens (xpath_query i)) =
     Some [SelectSelf, SelectDescendant ''channel'', SelectAttrEq ''xmltv_id'' i]"
  by (simp add: tokens_query [OF assms] prepare_def prepare_descendant_def prepare_predicate_def
      is_wildcard_tag_def plain_tag_def norm_token_def sig_item_def squote_def dquote_def Let_def)

lemma findall_query:
  assumes "squote \<notin> set i"
  shows "findall ext rt (xpath_query i) =
     Some (filter (\<lambda>e. get e ''xmltv_id'' = Some i)
            (filter (\<lambda>e. tag e = ''channel'') (descendants rt)))"
proof -
  have l: "last (xpath_query i) \<noteq> CHR ''/''" "take 1 (xpath_query i) \<noteq> ''/''"
    by (simp_all add: xpath_query_def)
  have b: "\<not> list_ex bad_name (xpath_tokens (xpath_query i))"
    by (simp add: tokens_query [OF assms] bad_name_def)
  show ?thesis
    using l b by (simp add: findall_def Let_def compile_query [OF assms])
qed

lemma find_channel_in_sites_plain:
  assumes "squote \<notin> set i" and "find_channel_in_sites ext i sd = Some e"
  shows "get e ''xmltv_id'' = Some i \<and> tag e = ''channel''"
  using assms(2)
proof (induction sd)
  case Nil
  then show ?case by simp
next
  case (Cons f sd)
  show ?case
  proof (cases f)
    case Unreadable
    with Cons show ?thesis by simp
  next
    case (Document rt)
    let ?r = "filter (\<lambda>e. get e ''xmltv_id'' = Some i)
            (filter (\<lambda>e. tag e = ''channel'') (descendants rt))"
    show ?thesis
    proof (cases ?r)
      case Nil
      with Cons Document show ?thesis
        by (simp add: findall_query [OF assms(1)])
    next
      case (Cons x xs)
      then have "x \<in> set ?r" by simp
      then have x: "get x ''xmltv_id'' = Some i \<and> tag x = ''channel''"
        by simp
      from Cons Document Cons.prems have "e = x"
        by (simp add: findall_query [OF assms(1)])
      with x show ?thesis by simp
    qed
  qed
qed

lemma length_takeWhile_less: "x \<in> set xs \<Longrightarrow> \<not> P x \<Longrightarrow> length (takeWhile P xs) < length xs"
  by (induction xs) auto

lemma takeWhile_name_tail:
  "length (takeWhile name_char (zs @ [squote, CHR '']''])) \<le> length zs + 1"
proof -
  have "\<not> name_char (CHR '']'')" by (simp add: name_char_def)
  then have "length (takeWhile name_char (zs @ [squote, CHR '']''])) < length (zs @ [squote, CHR '']''])"
    by (intro length_takeWhile_less [of "CHR '']''"]) simp_all
  then show ?thesis by simp
qed

lemma takeWhile_space_tail:
  "length (takeWhile isspace (zs @ [squote, CHR '']''])) \<le> length zs"
proof -
  have "\<not> isspace squote" by (simp add: isspace_def squote_def)
  then have "length (takeWhile isspace (zs @ [squote])) < length (zs @ [squote])"
    by (intro length_takeWhile_less [of squote]) simp_all
  moreover have "takeWhile isspace ((zs @ [squote]) @ [CHR '']'']) = takeWhile isspace (zs @ [squote])"
    using \<open>\<not> isspace squote\<close> by (intro takeWhile_append1 [of squote]) simp_all
  ultimately show ?thesis by simp
qed

lemma takeWhile_quote_tail:
  assumes "c \<noteq> CHR '']''" "c \<in> set (zs @ [squote, CHR '']''])"
  shows "length (takeWhile (\<lambda>x. x \<noteq> c) (zs @ [squote, CHR '']''])) \<le> length zs"
proof -
  from assms have m: "c \<in> set (zs @ [squote])" by auto
  then have "length (takeWhile (\<lambda>x. x \<noteq> c) (zs @ [squote])) < length (zs @ [squote])"
    by (intro length_takeWhile_less [of c]) simp_all
  moreover have "takeWhile (\<lambda>x. x \<noteq> c) ((zs @ [squote]) @ [CHR '']''])
      = takeWhile (\<lambda>x. x \<noteq> c) (zs @ [squote])"
    using m by (intro takeWhile_append1 [of c]) simp_all
  ultimately show ?thesis by simp
qed

lemma length_takeWhile_dropWhile:
  "length (takeWhile P xs) + length (dropWhile P xs) = length xs"
  by (induction xs) auto

lemma brace_len_le: "brace_len s \<le> length s"
proof (cases s)
  case Nil
  then show ?thesis by (simp add: brace_len_def)
next
  case (Cons c r)
  have "CHR ''}'' \<in> set r \<Longrightarrow> length (takeWhile (\<lambda>x. x \<noteq> CHR ''}'') r) < length r"
    by (rule length_takeWhile_less) simp_all
  then show ?thesis
    unfolding brace_len_def Cons by auto
qed

lemma name_len_tail: "name_len (zs @ [squote, CHR '']'']) \<le> length zs + 1"
proof -
  define s where "s = zs @ [squote, CHR '']'']"
  define n where "n = brace_len s"
  have nb: "\<not> name_char (CHR '']'')" by (simp add: name_char_def)
  have nl: "name_len s =
      (if 0 < n \<and> takeWhile name_char (drop n s) \<noteq> []
       then n + length (takeWhile name_char (drop n s))
       else length (takeWhile name_char s))"
    unfolding name_len_def n_def ..
  show ?thesis
  proof (cases "0 < n \<and> takeWhile name_char (drop n s) \<noteq> []")
    case False
    with nl have "name_len s = length (takeWhile name_char s)"
      by auto
    then show ?thesis
      using takeWhile_name_tail [of zs] by (simp add: s_def)
  next
    case True
    then have d: "drop n s \<noteq> []" by auto
    then have "n < length s" by simp
    then have "last (drop n s) = CHR '']''"
      by (simp add: s_def)
    with d have "CHR '']'' \<in> set (drop n s)"
      using last_in_set by metis
    then have "length (takeWhile name_char (drop n s)) < length (drop n s)"
      using nb by (rule length_takeWhile_less)
    moreover from True nl have "name_len s = n + length (takeWhile name_char (drop n s))"
      by auto
    ultimately show ?thesis
      using \<open>n < length s\<close> by (simp add: s_def)
  qed
qed

lemma scan_Cons:
  "scan (c # cs) =
     (if (c = squote \<or> c = dquote) \<and> c \<in> set cs then
        (Some (take (length (takeWhile (\<lambda>x. x \<noteq> c) cs) + 2) (c # cs), []),
         length (takeWhile (\<lambda>x. x \<noteq> c) cs) + 2)
      else if startswith (c # cs) ''::'' then (Some (''::'', []), 2)
      else if startswith (c # cs) ''//'' then (Some (''//'', []), 2)
      else if c = CHR ''/'' then (Some (''/'', []), 1)
      else if startswith (c # cs) ''..'' then (Some (''..'', []), 2)
      else if startswith (c # cs) ''()'' then (Some (''()'', []), 2)
      else if startswith (c # cs) ''!='' then (Some (''!='', []), 2)
      else if c \<in> set ''/.*:[]()@='' then (Some ([c], []), 1)
      else if 0 < name_len (c # cs) then
        (Some ([], take (name_len (c # cs)) (c # cs)), name_len (c # cs))
      else if isspace c then (Some ([], []), length (takeWhile isspace (c # cs)))
      else (None, 1))"
  by (simp add: scan_def)

lemma tail_ok_if:
  "(b \<Longrightarrow> tail_ok y x) \<Longrightarrow> (\<not> b \<Longrightarrow> tail_ok y z) \<Longrightarrow> tail_ok y (if b then x else z)"
  by simp

lemma scan_tail:
  assumes "CHR '']'' \<notin> set y"
  shows "tail_ok y (scan (y @ [squote, CHR '']'']))"
proof (cases y)
  case Nil
  have "scan [squote, CHR '']''] = (Some ([], [squote]), 1)"
    by (simp add: scan_def name_len_def brace_len_def name_char_def isspace_def startswith_def
        squote_def dquote_def)
  then show ?thesis
    by (simp add: Nil tail_ok_def)
next
  case (Cons c r)
  define cs where "cs = r @ [squote, CHR '']'']"
  have s: "y @ [squote, CHR '']''] = c # cs"
    by (simp add: Cons cs_def)
  have c: "c \<noteq> CHR '']''"
    using assms Cons by auto
  have len: "length y = length r + 1"
    by (simp add: Cons)
  have q: "c \<in> set cs \<Longrightarrow> length (takeWhile (\<lambda>x. x \<noteq> c) cs) \<le> length r"
    unfolding cs_def using c by (rule takeWhile_quote_tail)
  have nl: "name_len (c # cs) \<le> length y + 1"
    using name_len_tail [of y] by (simp add: s)
  have ws: "length (takeWhile isspace (c # cs)) \<le> length y"
    using takeWhile_space_tail [of y] by (simp add: s)
  have tq: "take (length (takeWhile (\<lambda>x. x \<noteq> c) cs) + 2) (c # cs) \<noteq> '']''"
    using c by simp
  show ?thesis
    unfolding s scan_Cons
  proof (intro tail_ok_if)
    assume "(c = squote \<or> c = dquote) \<and> c \<in> set cs"
    then show "tail_ok y (Some (take (length (takeWhile (\<lambda>x. x \<noteq> c) cs) + 2) (c # cs), []),
         length (takeWhile (\<lambda>x. x \<noteq> c) cs) + 2)"
      using q tq by (simp add: tail_ok_def len)
  next
    show "tail_ok y (Some (''::'', []), 2)" "tail_ok y (Some (''//'', []), 2)"
      "tail_ok y (Some (''/'', []), 1)" "tail_ok y (Some (''..'', []), 2)"
      "tail_ok y (Some (''()'', []), 2)" "tail_ok y (Some (''!='', []), 2)"
      by (simp_all add: tail_ok_def len)
  next
    show "tail_ok y (Some ([c], []), 1)"
      using c by (simp add: tail_ok_def len)
  next
    assume "0 < name_len (c # cs)"
    then show "tail_ok y (Some ([], take (name_len (c # cs)) (c # cs)), name_len (c # cs))"
      using nl by (simp add: tail_ok_def)
  next
    assume "isspace c"
    then show "tail_ok y (Some ([], []), length (takeWhile isspace (c # cs)))"
      using ws by (simp add: tail_ok_def)
  next
    show "tail_ok y (None, 1)"
      by (simp add: tail_ok_def len)
  qed
qed

lemma tokens_tail:
  "CHR '']'' \<notin> set y \<Longrightarrow>
     \<exists>ts. xpath_tokens (y @ [squote, CHR '']'']) = ts @ [('']'', [])]
       \<and> (\<forall>t \<in> set ts. fst t \<noteq> '']'') \<and> (\<exists>t \<in> set ts. t \<noteq> ([], []))"
proof (induction y rule: length_induct)
  case (1 y)
  define s where "s = y @ [squote, CHR '']'']"
  define n where "n = snd (scan s)"
  obtain c cs where s: "s = c # cs"
    by (cases s) (simp_all add: s_def)
  from scan_tail [OF "1.prems"] have ok: "tail_ok y (scan s)"
    by (simp add: s_def)
  then have n: "1 \<le> n" "n \<le> length y + 1"
    and nt: "\<And>t. fst (scan s) = Some t \<Longrightarrow> fst t \<noteq> '']''"
    and last: "n = length y + 1 \<Longrightarrow> \<exists>t. fst (scan s) = Some t \<and> t \<noteq> ([], [])"
    by (simp_all add: tail_ok_def n_def)
  have d: "drop (n - 1) cs = drop n s"
    using n(1) by (cases n) (simp_all add: s)
  have unf: "xpath_tokens s =
      (case fst (scan s) of None \<Rightarrow> [] | Some t \<Rightarrow> [t]) @ xpath_tokens (drop n s)"
    unfolding s xpath_tokens.simps n_def [unfolded s, symmetric] d [unfolded s] ..
  show ?case
  proof (cases "n = length y + 1")
    case True
    then obtain t where t: "fst (scan s) = Some t" "t \<noteq> ([], [])"
      using last by blast
    have "drop n s = '']''"
      by (simp add: True s_def)
    moreover have "xpath_tokens '']'' = [('']'', [])]"
      by (simp add: xpath_tokens.simps scan_def startswith_def squote_def dquote_def)
    ultimately have "xpath_tokens s = [t] @ [('']'', [])]"
      by (simp add: unf t)
    moreover have "\<forall>u \<in> set [t]. fst u \<noteq> '']''" "\<exists>u \<in> set [t]. u \<noteq> ([], [])"
      using nt [OF t(1)] t(2) by simp_all
    ultimately show ?thesis
      unfolding s_def by blast
  next
    case False
    with n have nl: "n \<le> length y" by simp
    define y' where "y' = drop n y"
    have "drop n s = y' @ [squote, CHR '']'']"
      using nl by (simp add: s_def y'_def)
    moreover have "length y' < length y" "CHR '']'' \<notin> set y'"
      using n(1) nl "1.prems" by (auto simp: y'_def dest: in_set_dropD)
    ultimately obtain ts where ts: "xpath_tokens (drop n s) = ts @ [('']'', [])]"
      "\<forall>t \<in> set ts. fst t \<noteq> '']''" "\<exists>t \<in> set ts. t \<noteq> ([], [])"
      using "1.IH" by force
    define hd_toks where "hd_toks = (case fst (scan s) of None \<Rightarrow> [] | Some t \<Rightarrow> [t])"
    have "xpath_tokens s = (hd_toks @ ts) @ [('']'', [])]"
      by (simp add: unf ts hd_toks_def)
    moreover have "\<forall>t \<in> set (hd_toks @ ts). fst t \<noteq> '']''"
    proof -
      have "\<forall>t \<in> set hd_toks. fst t \<noteq> '']''"
      proof (cases "fst (scan s)")
        case None
        then show ?thesis by (simp add: hd_toks_def)
      next
        case (Some t)
        with nt [OF Some] show ?thesis by (simp add: hd_toks_def)
      qed
      with ts(2) show ?thesis by auto
    qed
    moreover have "\<exists>t \<in> set (hd_toks @ ts). t \<noteq> ([], [])"
      using ts(3) by auto
    ultimately show ?thesis
      unfolding s_def by blast
  qed
qed

lemma sig_item_nonempty: "sig_item t \<noteq> []"
  by (simp add: sig_item_def)

lemma signature_nonempty:
  assumes "\<exists>t \<in> set ts. t \<noteq> ([], [])"
  shows "concat (map sig_item (map norm_token (filter (\<lambda>t. t \<noteq> ([], [])) ts))) \<noteq> []"
proof -
  from assms obtain t where "t \<in> set (filter (\<lambda>t. t \<noteq> ([], [])) ts)"
    by auto
  then have "sig_item (norm_token t) \<in> set (map sig_item (map norm_token (filter (\<lambda>t. t \<noteq> ([], [])) ts)))"
    by (auto simp del: set_filter)
  then show ?thesis
    using sig_item_nonempty [of "norm_token t"] by (auto simp del: set_filter set_map)
qed

lemma prepare_predicate_long:
  assumes "\<forall>t \<in> set ts. fst t \<noteq> '']''" and "\<exists>t \<in> set ts. t \<noteq> ([], [])"
  shows "prepare_predicate
      ([(''@'', []), ([], ''xmltv_id''), (''='', []), (squote # x @ [squote], [])] @ ts @ [('']'', [])])
    = None"
proof -
  define r where "r = concat (map sig_item (map norm_token (filter (\<lambda>t. t \<noteq> ([], [])) ts)))"
  have r: "r \<noteq> []"
    unfolding r_def using assms(2) by (rule signature_nonempty)
  define toks where
    "toks = [(''@'', []), ([], ''xmltv_id''), (''='', []), (squote # x @ [squote], [])] @ ts @ [('']'', [])]"
  define body where "body = takeWhile (\<lambda>t. fst t \<noteq> '']'') toks"
  have tw: "takeWhile (\<lambda>t. fst t \<noteq> '']'') (ts @ [('']'', [])]) = ts"
    using assms(1) by (induction ts) auto
  have body: "body = [(''@'', []), ([], ''xmltv_id''), (''='', []), (squote # x @ [squote], [])] @ ts"
    unfolding body_def toks_def using tw by (simp add: squote_def)
  have len: "length body \<noteq> length toks"
    by (simp add: body toks_def)
  have sg: "concat (map sig_item (map norm_token (filter (\<lambda>t. t \<noteq> ([], [])) body)))
      = ''@-='' @ [squote] @ r"
    by (simp add: body r_def sig_item_def norm_token_def squote_def dquote_def)
  have ne: "''@-='' @ [squote] @ r \<noteq> ''@-''" "''@-='' @ [squote] @ r \<noteq> ''@-='' @ [squote]"
    "''@-='' @ [squote] @ r \<noteq> ''@-!='' @ [squote]"
    "''@-='' @ [squote] @ r \<notin> set other_signatures"
    using r by (simp_all add: other_signatures_def)
  show ?thesis
    unfolding prepare_predicate_def toks_def [symmetric] body_def [symmetric] Let_def sg
    using len ne by simp
qed

lemma compile_injected:
  assumes "\<forall>t \<in> set ts. fst t \<noteq> '']''" and "\<exists>t \<in> set ts. t \<noteq> ([], [])"
  shows "compile
      ([(''.'', []), (''//'', []), ([], ''channel''), (''['', []), (''@'', []),
        ([], ''xmltv_id''), (''='', []), (squote # x @ [squote], [])] @ ts @ [('']'', [])])
    = None"
  using prepare_predicate_long [OF assms, of x]
  by (simp add: prepare_def prepare_descendant_def is_wildcard_tag_def plain_tag_def)

lemma tokens_two_quotes:
  assumes "squote \<notin> set x"
  shows "xpath_tokens (squote # x @ squote # y @ [squote, CHR '']''])
    = (squote # x @ [squote], []) # xpath_tokens (y @ [squote, CHR '']''])"
proof -
  have tw: "takeWhile (\<lambda>c. c \<noteq> squote) (x @ squote # y @ [squote, CHR '']'']) = x"
    using assms by (rule takeWhile_not_mem)
  have sc: "scan (squote # x @ squote # y @ [squote, CHR '']''])
      = (Some (squote # x @ [squote], []), length x + 2)"
    by (simp add: scan_def tw)
  show ?thesis
    by (simp add: xpath_tokens.simps(2) [of squote] sc)
qed

lemma findall_quote:
  assumes "squote \<in> set i" and "CHR '']'' \<notin> set i"
  shows "findall ext rt (xpath_query i) = None"
proof -
  from assms(1) obtain x y where i: "i = x @ squote # y" and x: "squote \<notin> set x"
    by (meson split_list_first)
  from assms(2) i have y: "CHR '']'' \<notin> set y" by simp
  from tokens_tail [OF y] obtain ts where
    ts: "xpath_tokens (y @ [squote, CHR '']'']) = ts @ [('']'', [])]"
      "\<forall>t \<in> set ts. fst t \<noteq> '']''" "\<exists>t \<in> set ts. t \<noteq> ([], [])"
    by blast
  have "xpath_query i = ''.//channel[@xmltv_id='' @ (squote # x @ squote # y @ [squote, CHR '']''])"
    by (simp add: xpath_query_def i)
  then have "xpath_tokens (xpath_query i) =
     [(''.'', []), (''//'', []), ([], ''channel''), (''['', []), (''@'', []),
      ([], ''xmltv_id''), (''='', [])] @ xpath_tokens (squote # x @ squote # y @ [squote, CHR '']''])"
    by (simp only: tokens_prefix)
  then have "xpath_tokens (xpath_query i) =
     [(''.'', []), (''//'', []), ([], ''channel''), (''['', []), (''@'', []),
      ([], ''xmltv_id''), (''='', []), (squote # x @ [squote], [])] @ ts @ [('']'', [])]"
    by (simp add: tokens_two_quotes [OF x] ts(1))
  then have "compile (xpath_tokens (xpath_query i)) = None"
    using compile_injected [OF ts(2,3), of x] by simp
  moreover have "last (xpath_query i) \<noteq> CHR ''/''"
    by (simp add: xpath_query_def)
  ultimately show ?thesis
    by (simp add: findall_def Let_def)
qed

lemma find_channel_in_sites_quote:
  assumes "squote \<in> set i" and "CHR '']'' \<notin> set i"
  shows "find_channel_in_sites ext i sd = None"
proof (induction sd)
  case Nil
  show ?case by simp
next
  case (Cons f sd)
  then show ?case
    by (cases f) (simp_all add: findall_quote [OF assms])
qed

lemmas query_eval =
  xpath_query_def findall_def scan_eval brace_len_def bad_name_def prepare_def
  prepare_predicate_def prepare_descendant_def is_wildcard_tag_def plain_tag_def norm_token_def
  sig_item_def other_signatures_def get_def Let_def

lemma injected_lookup: "find_channel_in_sites no_ext injected_id catalog_example = Some channel_a"
  by (simp add: injected_id_def catalog_example_def channel_a_def channel_q_def quoted_id_def query_eval)

section \<open>What the scanner returns\<close>

lemma quoted_lookup: "find_channel_in_sites no_ext quoted_id catalog_example = None"
  by (rule find_channel_in_sites_quote) (simp_all add: quoted_id_def squote_def)

text \<open>
  C9: a file that does not parse and a file on which the query raises are skipped, and
  for an identifier that holds a single quote and no closing bracket the query raises on
  every file (\<open>findall_quote\<close>, \<open>find_channel_in_sites_quote\<close>): for \<open>a'b\<close> the scanner
  returns no definition although the catalog holds one with that identifier. The
  identifier is written into the query as it is, though, so with a closing bracket after
  the quote it ends the predicate and begins another one. For the identifier
  \<open>a'][@xmltv_id='a\<close> the query compiles and the scanner returns a definition: the one
  whose identifier is \<open>a\<close>, in a catalog that holds no definition with the identifier
  asked for.
\<close>

theorem quoted_identifier_finds_another_definition:
  "squote \<in> set quoted_id
   \<and> get channel_q ''xmltv_id'' = Some quoted_id
   \<and> find_channel_in_sites no_ext quoted_id catalog_example = None
   \<and> squote \<in> set injected_id
   \<and> find_channel_in_sites no_ext injected_id catalog_example = Some channel_a
   \<and> get channel_a ''xmltv_id'' = Some ''a''
   \<and> injected_id \<noteq> ''a''
   \<and> get channel_q ''xmltv_id'' \<noteq> Some injected_id"
proof -
  have "squote \<in> set quoted_id" "squote \<in> set injected_id"
    by (simp_all add: quoted_id_def injected_id_def)
  moreover have "get channel_q ''xmltv_id'' = Some quoted_id" "get channel_a ''xmltv_id'' = Some ''a''"
    by (simp_all add: channel_q_def channel_a_def get_def)
  moreover have "injected_id \<noteq> ''a''" "quoted_id \<noteq> injected_id"
    by (simp_all add: injected_id_def quoted_id_def)
  ultimately show ?thesis
    by (simp add: quoted_lookup injected_lookup)
qed

section \<open>The identifiers of the matched definitions\<close>

lemma lookup_plain:
  assumes "lookup ext sd c = Some e" and "squote \<notin> set (the (tvg_id c))"
  shows "get e ''xmltv_id'' = tvg_id c \<and> tag e = ''channel''"
proof -
  from assms(1) obtain i where i: "tvg_id c = Some i" "find_channel_in_sites ext i sd = Some e"
    by (auto simp: lookup_def split: option.splits if_splits)
  with assms(2) show ?thesis
    using find_channel_in_sites_plain [of i ext sd e] by simp
qed

lemma match_pass_definitions:
  "length (children (channels_root (match_pass ext sd cs)))
     = length (matched_channels (match_pass ext sd cs))
   \<and> (\<forall>k < length (matched_channels (match_pass ext sd cs)).
        squote \<notin> set (the (tvg_id (matched_channels (match_pass ext sd cs) ! k))) \<longrightarrow>
        get (children (channels_root (match_pass ext sd cs)) ! k) ''xmltv_id''
          = tvg_id (matched_channels (match_pass ext sd cs) ! k))"
proof -
  define ms where "ms = filter (found ext sd) cs"
  have m: "matched_channels (match_pass ext sd cs) = ms"
    and c: "children (channels_root (match_pass ext sd cs)) = map (\<lambda>c. the (lookup ext sd c)) ms"
    by (simp_all add: match_pass_def match_loop_result ms_def)
  have "\<And>k. k < length ms \<Longrightarrow> squote \<notin> set (the (tvg_id (ms ! k))) \<Longrightarrow>
      get (the (lookup ext sd (ms ! k))) ''xmltv_id'' = tvg_id (ms ! k)"
  proof -
    fix k
    assume k: "k < length ms" and q: "squote \<notin> set (the (tvg_id (ms ! k)))"
    then have "ms ! k \<in> set ms" by simp
    then have "found ext sd (ms ! k)" by (simp add: ms_def)
    then obtain e where "lookup ext sd (ms ! k) = Some e"
      by (auto simp: found_def)
    with lookup_plain [OF this q] show "get (the (lookup ext sd (ms ! k))) ''xmltv_id'' = tvg_id (ms ! k)"
      by simp
  qed
  then show ?thesis
    by (simp add: m c)
qed

lemma injected_parse:
  "parse_m3u injected_playlist =
     [make_channel [''#EXTINF:-1 tvg-id='' @ [dquote] @ injected_id @ [dquote] @ '',A''] ''http://a'']"
  by (simp add: injected_playlist_def injected_id_def parser_eval squote_def)

lemma injected_tvg_id:
  "tvg_id (make_channel [''#EXTINF:-1 tvg-id='' @ [dquote] @ injected_id @ [dquote] @ '',A''] ''http://a'')
    = Some injected_id"
  by (simp add: make_channel_def injected_id_def startswith_def dquote_def squote_def)

text \<open>
  C7: the match pass appends one definition per matched channel, so the two sequences
  have the same length, and for an identifier without a single quote the definition at
  each position carries the identifier of the channel at that position
  (\<open>match_pass_definitions\<close>). With a quote in it the identifier is read as part of the
  query: for the playlist identifier \<open>a'][@xmltv_id='a\<close> the pass matches the channel and
  appends the definition whose identifier is \<open>a\<close>.
\<close>

theorem matched_identifier_differs:
  "map tvg_id (matched_channels (match_pass no_ext catalog_example (parse_m3u injected_playlist)))
     = [Some injected_id]
   \<and> children (channels_root (match_pass no_ext catalog_example (parse_m3u injected_playlist)))
     = [channel_a]
   \<and> get channel_a ''xmltv_id'' = Some ''a''
   \<and> injected_id \<noteq> ''a''"
proof -
  define c where
    "c = make_channel [''#EXTINF:-1 tvg-id='' @ [dquote] @ injected_id @ [dquote] @ '',A''] ''http://a''"
  have p: "parse_m3u injected_playlist = [c]"
    by (simp only: injected_parse c_def)
  have t: "tvg_id c = Some injected_id"
    by (simp only: injected_tvg_id c_def)
  have n: "injected_id \<noteq> []" "injected_id \<noteq> ''a''"
    by (simp_all add: injected_id_def)
  have l: "lookup no_ext catalog_example c = Some channel_a"
    using n(1) by (simp add: lookup_def t injected_lookup)
  then have f: "found no_ext catalog_example c"
    by (simp add: found_def)
  have "matched_channels (match_pass no_ext catalog_example [c]) = [c]"
    "children (channels_root (match_pass no_ext catalog_example [c])) = [channel_a]"
    by (simp_all add: match_pass_def match_loop_result f l del: match_loop.simps)
  moreover have "get channel_a ''xmltv_id'' = Some ''a''"
    by (simp add: channel_a_def get_def)
  ultimately show ?thesis
    using n(2) by (simp add: p t)
qed

section \<open>The age of the guide and of the match cache\<close>

text \<open>
  C6: a guide whose modification time is \<open>T\<close> is recent one second before
  \<open>T + GUIDE_CACHE_MAX_AGE\<close> (twelve hours) and not recent one second after it, and a
  guide that does not exist is never recent; in general the guide is recent exactly when
  its age is at most \<open>GUIDE_CACHE_MAX_AGE\<close>.
\<close>

theorem guide_freshness:
  "is_guide_recent (T + GUIDE_CACHE_MAX_AGE - 1) (Some T)
   \<and> \<not> is_guide_recent (T + GUIDE_CACHE_MAX_AGE + 1) (Some T)
   \<and> \<not> is_guide_recent now None
   \<and> is_guide_recent now (Some T) = (now - T \<le> GUIDE_CACHE_MAX_AGE)
   \<and> GUIDE_CACHE_MAX_AGE = 12 * 3600"
  by (auto simp add: GUIDE_CACHE_MAX_AGE_def)

lemma simple_empty: "simple (Element ''channels'' [] None None [])"
  by (simp add: simple_def xml_name_def name_start_def name_part_def)

lemma save_simple:
  "simple rt \<Longrightarrow>
     save_channel_cache lib T ms rt fs =
       Some (fs\<lparr>cache_file :=
               Stored \<lparr>timestamp = Number T, stored_channels = ms, channels_xml = XmlOf rt\<rparr>\<rparr>)"
  by (simp add: save_channel_cache_def tostring_def)





section \<open>The zero-match guard and the cache\<close>

lemma example_zero: "matched_count (match_pass no_ext [] (parse_m3u example_text)) = 0"
  by (simp add: example_parse match_pass_def)

lemma main_zero:
  assumes "git_ok env" and "npm_ok env"
    and "refresh env \<or> load_channel_cache (time_load env) (cache_file fs) = None"
    and "m3u_download env = Some m3u_content"
    and "matched_count (match_pass ext (sites env) (parse_m3u m3u_content)) = 0"
  shows "main ext lib env fs =
          (SystemExit 1,
           fs\<lparr>cache_file := Stored \<lparr>timestamp = Number (time_save env), stored_channels = [],
                 channels_xml = XmlOf (Element ''channels'' [] None None [])\<rparr>\<rparr>)"
proof -
  note z = match_pass_zero [OF assms(5)]
  have s: "save_channel_cache lib (time_save env) [] (Element ''channels'' [] None None []) fs =
      Some (fs\<lparr>cache_file := Stored \<lparr>timestamp = Number (time_save env), stored_channels = [],
                 channels_xml = XmlOf (Element ''channels'' [] None None [])\<rparr>\<rparr>)"
    by (rule save_simple [OF simple_empty])
  from assms(1-5) show ?thesis
    by (auto simp: main_def finish_def Let_def z s)
qed

text \<open>
  C3: when the setup commands succeed and the match result has no channel, the run ends
  with \<open>sys.exit(1)\<close> before either output is written. With a loaded cache that holds
  no channel no file changes at all; after a fresh pass that matches nothing the two
  output files (and the guide) are what they were, the cache file alone having been saved.
\<close>

theorem zero_match_guard:
  assumes "git_ok env" and "npm_ok env"
  shows "(\<not> refresh env \<and> load_channel_cache (time_load env) (cache_file fs) = Some cache
            \<and> int (length (matched_channels cache)) = 0
          \<longrightarrow> main ext lib env fs = (SystemExit 1, fs))
       \<and> ((refresh env \<or> load_channel_cache (time_load env) (cache_file fs) = None)
            \<and> m3u_download env = Some m3u_content
            \<and> matched_count (match_pass ext (sites env) (parse_m3u m3u_content)) = 0
          \<longrightarrow> fst (main ext lib env fs) = SystemExit 1
              \<and> channels_file (snd (main ext lib env fs)) = channels_file fs
              \<and> playlist_file (snd (main ext lib env fs)) = playlist_file fs
              \<and> guide_file (snd (main ext lib env fs)) = guide_file fs)"
proof (intro conjI impI)
  assume "\<not> refresh env \<and> load_channel_cache (time_load env) (cache_file fs) = Some cache
            \<and> int (length (matched_channels cache)) = 0"
  with assms show "main ext lib env fs = (SystemExit 1, fs)"
    by (simp add: main_def finish_def)
next
  assume h: "(refresh env \<or> load_channel_cache (time_load env) (cache_file fs) = None)
            \<and> m3u_download env = Some m3u_content
            \<and> matched_count (match_pass ext (sites env) (parse_m3u m3u_content)) = 0"
  then have m: "main ext lib env fs =
          (SystemExit 1,
           fs\<lparr>cache_file := Stored \<lparr>timestamp = Number (time_save env), stored_channels = [],
                 channels_xml = XmlOf (Element ''channels'' [] None None [])\<rparr>\<rparr>)"
    using main_zero [OF assms, of fs m3u_content ext lib] by blast
  show "fst (main ext lib env fs) = SystemExit 1"
    "channels_file (snd (main ext lib env fs)) = channels_file fs"
    "playlist_file (snd (main ext lib env fs)) = playlist_file fs"
    "guide_file (snd (main ext lib env fs)) = guide_file fs"
    by (simp_all add: m)
qed

theorem zero_match_guard_witness:
  "git_ok example_env \<and> npm_ok example_env \<and> \<not> refresh example_env
   \<and> load_channel_cache (time_load example_env) (cache_file (example_files\<lparr>cache_file := empty_cache\<rparr>))
        = Some \<lparr>matched_channels = [], channels_root = Element ''channels'' [] None None []\<rparr>
   \<and> main no_ext no_lib example_env (example_files\<lparr>cache_file := empty_cache\<rparr>)
        = (SystemExit 1, example_files\<lparr>cache_file := empty_cache\<rparr>)
   \<and> load_channel_cache (time_load example_env) (cache_file example_files) = None
   \<and> m3u_download example_env = Some example_text
   \<and> matched_count (match_pass no_ext (sites example_env) (parse_m3u example_text)) = 0
   \<and> fst (main no_ext no_lib example_env example_files) = SystemExit 1
   \<and> channels_file (snd (main no_ext no_lib example_env example_files)) = channels_file example_files
   \<and> playlist_file (snd (main no_ext no_lib example_env example_files)) = playlist_file example_files"
  using zero_match_guard [where env = example_env and fs = "example_files\<lparr>cache_file := empty_cache\<rparr>"
      and cache = "\<lparr>matched_channels = [], channels_root = Element ''channels'' [] None None []\<rparr>"
      and ext = no_ext and lib = no_lib and m3u_content = example_text]
    zero_match_guard [where env = example_env and fs = example_files
      and cache = "\<lparr>matched_channels = [], channels_root = Element ''channels'' [] None None []\<rparr>"
      and ext = no_ext and lib = no_lib and m3u_content = example_text]
    example_zero
  by (simp add: example_env_def example_files_def empty_cache_def CACHE_MAX_AGE_def)

text \<open>
  C10: a fresh run saves the cache before the guard at line 264. When it matches nothing
  it ends with \<open>sys.exit(1)\<close>, the output files untouched, and the cache file then
  holds the time of the save, no channel and the empty \<open>channels\<close> element. A later run
  without \<open>--refresh\<close> that loads the cache at most \<open>CACHE_MAX_AGE\<close> after that save
  gets the empty result from it and ends with \<open>sys.exit(1)\<close> as well, leaving every
  file as it is, whatever playlist and catalog it would have read.
\<close>

theorem empty_result_is_cached:
  assumes "git_ok env" and "npm_ok env"
    and "refresh env \<or> load_channel_cache (time_load env) (cache_file fs) = None"
    and "m3u_download env = Some m3u_content"
    and "matched_count (match_pass ext (sites env) (parse_m3u m3u_content)) = 0"
    and "git_ok env'" and "npm_ok env'" and "\<not> refresh env'"
    and "time_load env' - time_save env \<le> CACHE_MAX_AGE"
  shows "main ext lib env fs =
          (SystemExit 1,
           fs\<lparr>cache_file := Stored \<lparr>timestamp = Number (time_save env), stored_channels = [],
                 channels_xml = XmlOf (Element ''channels'' [] None None [])\<rparr>\<rparr>)
       \<and> load_channel_cache (time_load env') (cache_file (snd (main ext lib env fs)))
           = Some \<lparr>matched_channels = [], channels_root = Element ''channels'' [] None None []\<rparr>
       \<and> main ext' lib' env' (snd (main ext lib env fs)) = (SystemExit 1, snd (main ext lib env fs))"
proof -
  note 1 = main_zero [OF assms(1-5), of lib]
  have 2: "load_channel_cache (time_load env') (cache_file (snd (main ext lib env fs)))
           = Some \<lparr>matched_channels = [], channels_root = Element ''channels'' [] None None []\<rparr>"
    using assms(9) by (simp add: 1)
  have 3: "main ext' lib' env' (snd (main ext lib env fs)) = (SystemExit 1, snd (main ext lib env fs))"
    using assms(6-8) 2 by (simp add: main_def finish_def Let_def)
  from 1 2 3 show ?thesis by simp
qed

theorem empty_result_is_cached_witness:
  "git_ok example_env \<and> npm_ok example_env
   \<and> load_channel_cache (time_load example_env) (cache_file example_files) = None
   \<and> m3u_download example_env = Some example_text
   \<and> matched_count (match_pass no_ext (sites example_env) (parse_m3u example_text)) = 0
   \<and> \<not> refresh (example_env\<lparr>m3u_download := None, time_load := 3600\<rparr>)
   \<and> time_load (example_env\<lparr>m3u_download := None, time_load := 3600\<rparr>) - time_save example_env
        \<le> CACHE_MAX_AGE
   \<and> main no_ext no_lib example_env example_files = (SystemExit 1, example_files\<lparr>cache_file := empty_cache\<rparr>)
   \<and> main no_ext no_lib (example_env\<lparr>m3u_download := None, time_load := 3600\<rparr>)
        (snd (main no_ext no_lib example_env example_files))
       = (SystemExit 1, snd (main no_ext no_lib example_env example_files))"
proof -
  have h: "git_ok example_env" "npm_ok example_env"
    "refresh example_env \<or> load_channel_cache (time_load example_env) (cache_file example_files) = None"
    "m3u_download example_env = Some example_text"
    "matched_count (match_pass no_ext (sites example_env) (parse_m3u example_text)) = 0"
    "git_ok (example_env\<lparr>m3u_download := None, time_load := 3600\<rparr>)"
    "npm_ok (example_env\<lparr>m3u_download := None, time_load := 3600\<rparr>)"
    "\<not> refresh (example_env\<lparr>m3u_download := None, time_load := 3600\<rparr>)"
    "time_load (example_env\<lparr>m3u_download := None, time_load := 3600\<rparr>) - time_save example_env
        \<le> CACHE_MAX_AGE"
    using example_zero
    by (simp_all add: example_env_def example_files_def CACHE_MAX_AGE_def)
  note r = empty_result_is_cached [where ext' = no_ext and lib = no_lib and lib' = no_lib, OF h]
  from r have 1: "main no_ext no_lib example_env example_files
      = (SystemExit 1, example_files\<lparr>cache_file := empty_cache\<rparr>)"
    by (simp add: example_env_def example_files_def empty_cache_def)
  from r have 2: "main no_ext no_lib (example_env\<lparr>m3u_download := None, time_load := 3600\<rparr>)
        (snd (main no_ext no_lib example_env example_files))
       = (SystemExit 1, snd (main no_ext no_lib example_env example_files))"
    by blast
  have l: "load_channel_cache (time_load example_env) (cache_file example_files) = None"
    by (simp add: example_files_def)
  from h l 1 2 show ?thesis by blast
qed

end
